theory Spec2Isabelle
  imports Complex_Main "HOL-Library.Sublist"
begin

section \<open>Strings and numbers of the host language\<close>

text \<open>
  A string is the list of its code units. The texts that the script parses or writes
  (coordinates, the fields of the editing popup) are \<open>string\<close>s, which hold the code
  units below 256; the texts that the search compares (names, related items, the query)
  are lists over any type \<open>'c\<close> of code units. The functions below are the built-ins
  that \<^verbatim>\<open>map.js\<close> calls on strings: \<^verbatim>\<open>trim\<close>, \<^verbatim>\<open>toLowerCase\<close>,
  \<^verbatim>\<open>includes\<close> and \<^verbatim>\<open>parseFloat\<close>.
\<close>

definition isWhiteSpace :: "char \<Rightarrow> bool" where
  "isWhiteSpace c = (of_char c \<in> set [9, 10, 11, 12, 13, 32, 160 :: nat])"

definition trimStart :: "string \<Rightarrow> string" where
  "trimStart s = dropWhile isWhiteSpace s"

definition trimEnd :: "string \<Rightarrow> string" where
  "trimEnd s = rev (dropWhile isWhiteSpace (rev s))"

definition trim :: "string \<Rightarrow> string" where
  "trim s = trimEnd (trimStart s)"

text \<open>
  \<^verbatim>\<open>trim\<close> over any code units: \<open>ws\<close> tells which code units are white space or line
  terminators.
\<close>

definition trim_by :: "('c \<Rightarrow> bool) \<Rightarrow> 'c list \<Rightarrow> 'c list" where
  "trim_by ws s = rev (dropWhile ws (rev (dropWhile ws s)))"

text \<open>
  \<^verbatim>\<open>toLowerCase\<close> is a parameter of the search, \<open>lower\<close>: the conversion of the
  Unicode standard is not a letter by letter map (it depends on the neighbours of a
  letter and may change the length). On code units below 256 it is one, the following;
  the examples use it.
\<close>

definition toLowerChar :: "char \<Rightarrow> char" where
  "toLowerChar c =
     (let n = (of_char c :: nat)
      in if (65 \<le> n \<and> n \<le> 90) \<or> (192 \<le> n \<and> n \<le> 222 \<and> n \<noteq> 215)
         then char_of (n + 32) else c)"

definition latin1_lower :: "string \<Rightarrow> string" where
  "latin1_lower s = map toLowerChar s"

text \<open>
  On Greek words the conversion looks at the neighbours of a letter: a capital sigma
  that follows a letter and is followed by none becomes the final small sigma, any
  other one the small sigma. The code units of capital omicron, delta and sigma and of
  the small letters, and \<^verbatim>\<open>toLowerCase\<close> on the words over them; \<open>after\<close> tells that a
  letter precedes.
\<close>

datatype greek = Cap_Omicron | Cap_Delta | Cap_Sigma | Small_Omicron | Small_Delta
  | Small_Sigma | Final_Sigma

fun lower_greek_from :: "bool \<Rightarrow> greek list \<Rightarrow> greek list" where
  "lower_greek_from after [] = []"
| "lower_greek_from after (c # s) =
     (case c of
        Cap_Omicron \<Rightarrow> Small_Omicron
      | Cap_Delta \<Rightarrow> Small_Delta
      | Cap_Sigma \<Rightarrow> if after \<and> s = [] then Final_Sigma else Small_Sigma
      | _ \<Rightarrow> c) # lower_greek_from True s"

definition lower_greek :: "greek list \<Rightarrow> greek list" where
  "lower_greek s = lower_greek_from False s"

text \<open>\<^verbatim>\<open>s.includes(q)\<close>: \<open>q\<close> occurs in \<open>s\<close> as a contiguous run.\<close>

fun str_includes :: "'c list \<Rightarrow> 'c list \<Rightarrow> bool" where
  "str_includes [] q = (q = [])"
| "str_includes (c # s) q = (prefix q (c # s) \<or> str_includes s q)"

text \<open>
  A number is NaN, an infinity or a finite value. Finite values are kept as the exact
  rational they denote; rounding to the nearest double is not part of the model.
\<close>

datatype jsnum = NaN | Infinity bool | Num rat

definition isDigit :: "char \<Rightarrow> bool" where
  "isDigit c = (48 \<le> (of_char c :: int) \<and> (of_char c :: int) \<le> 57)"

definition digitVal :: "char \<Rightarrow> int" where
  "digitVal c = of_char c - 48"

definition digitsVal :: "string \<Rightarrow> int" where
  "digitsVal ds = foldl (\<lambda>a c. 10 * a + digitVal c) 0 ds"

definition pow10 :: "int \<Rightarrow> rat" where
  "pow10 k = (if 0 \<le> k then 10 ^ nat k else 1 / 10 ^ nat (- k))"

text \<open>The exponent part \<^verbatim>\<open>e[+-]digits\<close>; it counts only when a digit follows.\<close>

definition exponentPart :: "string \<Rightarrow> int" where
  "exponentPart r =
     (case r of
        [] \<Rightarrow> 0
      | e # r1 \<Rightarrow>
          if e = CHR ''e'' \<or> e = CHR ''E'' then
            (case r1 of
               [] \<Rightarrow> 0
             | sg # r2 \<Rightarrow>
                 if sg = CHR ''-'' then
                   (if takeWhile isDigit r2 = [] then 0
                    else - digitsVal (takeWhile isDigit r2))
                 else if sg = CHR ''+'' then digitsVal (takeWhile isDigit r2)
                 else digitsVal (takeWhile isDigit r1))
          else 0)"

text \<open>
  \<^verbatim>\<open>parseFloat\<close>: skip leading white space, read the longest prefix that is a
  decimal literal, NaN when there is none.
\<close>

definition parseFloat :: "string \<Rightarrow> jsnum" where
  "parseFloat s =
     (let t = trimStart s;
          neg = (case t of [] \<Rightarrow> False | c # _ \<Rightarrow> c = CHR ''-'');
          u = (case t of [] \<Rightarrow> []
               | c # r \<Rightarrow> if c = CHR ''-'' \<or> c = CHR ''+'' then r else t)
      in if prefix ''Infinity'' u then Infinity neg
         else
           let ip = takeWhile isDigit u;
               r1 = dropWhile isDigit u;
               fp = (case r1 of [] \<Rightarrow> []
                     | d # r \<Rightarrow> if d = CHR ''.'' then takeWhile isDigit r else []);
               r2 = (case r1 of [] \<Rightarrow> []
                     | d # r \<Rightarrow> if d = CHR ''.'' then dropWhile isDigit r else r1)
           in if ip = [] \<and> fp = [] then NaN
              else Num ((if neg then - 1 else 1) * of_int (digitsVal (ip @ fp))
                         * pow10 (exponentPart r2 - int (length fp))))"

definition isNaN :: "jsnum \<Rightarrow> bool" where
  "isNaN x = (x = NaN)"

section \<open>Create-marker mode\<close>

text \<open>
  \<^verbatim>\<open>createMarkerMode\<close> and the three handlers that touch draft creation: the map's
  \<^verbatim>\<open>dblclick\<close> and \<^verbatim>\<open>click\<close> handlers and the Create Marker button. A draft is
  recorded with the point it was dropped at and the value the flag had when
  \<^verbatim>\<open>createMarkerWithPopup\<close> was entered.
\<close>

record draft =
  latlng :: "rat \<times> rat"
  modeAtCreation :: bool

record create_state =
  createMarkerMode :: bool
  drafts :: "draft list"
  optionsHidden :: bool

definition createMarkerWithPopup :: "rat \<times> rat \<Rightarrow> create_state \<Rightarrow> create_state" where
  "createMarkerWithPopup p st =
     st\<lparr>drafts := drafts st @ [\<lparr>latlng = p, modeAtCreation = createMarkerMode st\<rparr>]\<rparr>"

definition map_dblclick :: "rat \<times> rat \<Rightarrow> create_state \<Rightarrow> create_state" where
  "map_dblclick p st = createMarkerWithPopup p st"

definition map_click :: "rat \<times> rat \<Rightarrow> create_state \<Rightarrow> create_state" where
  "map_click p st =
     (if \<not> createMarkerMode st then st
      else createMarkerWithPopup p (st\<lparr>createMarkerMode := False\<rparr>))"

definition createMarkerButton_click :: "create_state \<Rightarrow> create_state" where
  "createMarkerButton_click st = st\<lparr>createMarkerMode := True, optionsHidden := True\<rparr>"

datatype ui_event = Click "rat \<times> rat" | DblClick "rat \<times> rat" | CreateMarkerButton

fun handle :: "ui_event \<Rightarrow> create_state \<Rightarrow> create_state" where
  "handle (Click p) st = map_click p st"
| "handle (DblClick p) st = map_dblclick p st"
| "handle CreateMarkerButton st = createMarkerButton_click st"

definition run_events :: "ui_event list \<Rightarrow> create_state \<Rightarrow> create_state" where
  "run_events es st = foldl (\<lambda>s e. handle e s) st es"


section \<open>Highlight state\<close>

text \<open>
  \<^verbatim>\<open>currentHighlightedMarker\<close> and the class lists of the marker elements. A marker
  handle is a number; \<open>classList st h\<close> is \<open>None\<close> when \<^verbatim>\<open>h.getElement()\<close> yields
  no element, and the class names of the element otherwise.
\<close>

record hl_state =
  currentHighlightedMarker :: "nat option"
  classList :: "nat \<rightharpoonup> string list"

definition classList_remove :: "string \<Rightarrow> string list \<Rightarrow> string list" where
  "classList_remove c cl = filter (\<lambda>x. x \<noteq> c) cl"

definition classList_add :: "string \<Rightarrow> string list \<Rightarrow> string list" where
  "classList_add c cl = (if c \<in> set cl then cl else cl @ [c])"

definition highlightMarker :: "nat \<Rightarrow> hl_state \<Rightarrow> hl_state" where
  "highlightMarker m st =
     (let st1 =
        (case currentHighlightedMarker st of
           None \<Rightarrow> st
         | Some prev \<Rightarrow>
             if prev \<noteq> m then
               (case classList st prev of
                  None \<Rightarrow> st
                | Some prevEl \<Rightarrow>
                    st\<lparr>classList := (classList st)(prev \<mapsto> classList_remove ''highlighted'' prevEl)\<rparr>)
             else st);
          st2 = st1\<lparr>currentHighlightedMarker := Some m\<rparr>
      in case classList st2 m of
           None \<Rightarrow> st2
         | Some el \<Rightarrow>
             st2\<lparr>classList := (classList st2)
                   (m \<mapsto> classList_add ''highlighted'' (classList_remove ''highlighted'' el))\<rparr>)"

text \<open>
  The earlier revision of the script registers, in \<^verbatim>\<open>highlightMarker\<close>, a listener
  that removes the class when the animation of the element ends; the current one keeps
  the class. \<open>transient\<close> selects the revision.
\<close>

definition animationend :: "bool \<Rightarrow> nat \<Rightarrow> hl_state \<Rightarrow> hl_state" where
  "animationend transient m st =
     (if transient then
        (case classList st m of
           None \<Rightarrow> st
         | Some el \<Rightarrow> st\<lparr>classList := (classList st)(m \<mapsto> classList_remove ''highlighted'' el)\<rparr>)
      else st)"

datatype hl_event = Select nat | AnimationEnd nat

fun hl_step :: "bool \<Rightarrow> hl_event \<Rightarrow> hl_state \<Rightarrow> hl_state" where
  "hl_step transient (Select m) st = highlightMarker m st"
| "hl_step transient (AnimationEnd m) st = animationend transient m st"

definition hl_run :: "bool \<Rightarrow> hl_event list \<Rightarrow> hl_state \<Rightarrow> hl_state" where
  "hl_run transient es st = foldl (\<lambda>s e. hl_step transient e s) st es"

definition select_all :: "nat list \<Rightarrow> hl_state \<Rightarrow> hl_state" where
  "select_all hs st = foldl (\<lambda>s h. highlightMarker h s) st hs"

text \<open>A handle carries the emphasis when its element has the class.\<close>

definition emphasised :: "hl_state \<Rightarrow> nat \<Rightarrow> bool" where
  "emphasised st h =
     (case classList st h of None \<Rightarrow> False | Some el \<Rightarrow> ''highlighted'' \<in> set el)"

text \<open>Only the handle in \<^verbatim>\<open>currentHighlightedMarker\<close> carries the emphasis.\<close>

definition hl_inv :: "hl_state \<Rightarrow> bool" where
  "hl_inv st = (\<forall>h. emphasised st h \<longrightarrow> currentHighlightedMarker st = Some h)"

section \<open>Image cache\<close>

text \<open>
  \<^verbatim>\<open>imageLoadCache\<close> maps a URL to its promise. A promise is the index of its
  outcome in \<open>promises\<close>; \<open>loads\<close> lists the URLs for which an \<^verbatim>\<open>Image\<close> was created
  and given its \<^verbatim>\<open>src\<close>, in order, so promise \<open>i\<close> belongs to \<open>loads ! i\<close>.
  \<open>warming\<close> holds the suspended loops of \<^verbatim>\<open>warmCache\<close>: the promise each one
  awaits and the URLs it has still to visit. \<open>idle\<close> holds the callbacks handed to
  \<^verbatim>\<open>requestIdleCallback\<close> or \<^verbatim>\<open>setTimeout\<close>.
\<close>

datatype outcome = Pending | Resolved string | Rejected string

record img_state =
  imageLoadCache :: "string \<rightharpoonup> nat"
  promises :: "outcome list"
  loads :: "string list"
  warming :: "(nat \<times> string list) list"
  idle :: "string list list"

definition loadImage :: "string \<Rightarrow> img_state \<Rightarrow> nat \<times> img_state" where
  "loadImage url st =
     (case imageLoadCache st url of
        Some p \<Rightarrow> (p, st)
      | None \<Rightarrow>
          (length (promises st),
           st\<lparr>imageLoadCache := (imageLoadCache st)(url \<mapsto> length (promises st)),
              promises := promises st @ [Pending],
              loads := loads st @ [url]\<rparr>))"

text \<open>
  The loop \<^verbatim>\<open>for (const url of toWarm) { try { await loadImage(url); } catch {} }\<close>
  from the point where it has the URLs \<open>us\<close> to visit: it suspends on a pending
  promise, and goes on to the next URL when the promise is settled, after a rejection
  (caught, with an empty handler) as after a success.
\<close>

fun warm_loop :: "string list \<Rightarrow> img_state \<Rightarrow> img_state" where
  "warm_loop [] st = st"
| "warm_loop (u # us) st =
     (case loadImage u st of
        (p, st') \<Rightarrow>
          (case promises st' ! p of
             Pending \<Rightarrow> st'\<lparr>warming := warming st' @ [(p, us)]\<rparr>
           | Resolved v \<Rightarrow> warm_loop us st'
           | Rejected e \<Rightarrow> warm_loop us st'))"

text \<open>
  \<^verbatim>\<open>urls.slice(0, limit)\<close> for an integer \<open>limit\<close>: the first \<open>limit\<close> elements, and
  for a negative \<open>limit\<close> all but the last \<open>- limit\<close>.
\<close>

definition slice0 :: "int \<Rightarrow> 'a list \<Rightarrow> 'a list" where
  "slice0 limit xs =
     (if limit < 0 then take (nat (max (int (length xs) + limit) 0)) xs
      else take (nat (min limit (int (length xs)))) xs)"

definition toWarm :: "string list \<Rightarrow> int \<Rightarrow> img_state \<Rightarrow> string list" where
  "toWarm urls limit st = filter (\<lambda>u. imageLoadCache st u = None) (slice0 limit urls)"

definition warmCache :: "string list \<Rightarrow> int \<Rightarrow> img_state \<Rightarrow> img_state" where
  "warmCache urls limit st =
     (if toWarm urls limit st = [] then st
      else st\<lparr>idle := idle st @ [toWarm urls limit st]\<rparr>)"

text \<open>The browser runs the oldest scheduled callback.\<close>

definition run_idle :: "img_state \<Rightarrow> img_state" where
  "run_idle st = (case idle st of [] \<Rightarrow> st | tw # rest \<Rightarrow> warm_loop tw (st\<lparr>idle := rest\<rparr>))"

text \<open>
  \<^verbatim>\<open>img.onload\<close> (\<open>ok\<close>) or \<^verbatim>\<open>img.onerror\<close> of the image of promise \<open>p\<close>: the
  promise is settled, once, and the loops awaiting it resume.
\<close>

definition settle :: "bool \<Rightarrow> string \<Rightarrow> outcome" where
  "settle ok url = (if ok then Resolved url else Rejected (''Failed to load image: '' @ url))"

definition image_settled :: "nat \<Rightarrow> bool \<Rightarrow> img_state \<Rightarrow> img_state" where
  "image_settled p ok st =
     (if p < length (promises st) \<and> promises st ! p = Pending then
        foldl (\<lambda>s w. warm_loop (snd w) s)
          (st\<lparr>promises := (promises st)[p := settle ok (loads st ! p)],
              warming := filter (\<lambda>w. fst w \<noteq> p) (warming st)\<rparr>)
          (filter (\<lambda>w. fst w = p) (warming st))
      else st)"

datatype img_event =
    LoadImage string
  | WarmCache "string list" int
  | Idle
  | Settled nat bool

fun img_step :: "img_event \<Rightarrow> img_state \<Rightarrow> img_state" where
  "img_step (LoadImage url) st = snd (loadImage url st)"
| "img_step (WarmCache urls limit) st = warmCache urls limit st"
| "img_step Idle st = run_idle st"
| "img_step (Settled p ok) st = image_settled p ok st"

definition img_run :: "img_event list \<Rightarrow> img_state \<Rightarrow> img_state" where
  "img_run es st = foldl (\<lambda>s e. img_step e s) st es"

definition img_init :: img_state where
  "img_init = \<lparr>imageLoadCache = Map.empty, promises = [], loads = [], warming = [], idle = []\<rparr>"


text \<open>The invariant of the cache: every load has its promise, the promise cached for
  a URL is the index of the load of that URL, and every load is cached.\<close>

definition img_inv :: "img_state \<Rightarrow> bool" where
  "img_inv st =
     (length (promises st) = length (loads st)
      \<and> (\<forall>u p. imageLoadCache st u = Some p \<longrightarrow> p < length (loads st) \<and> loads st ! p = u)
      \<and> (\<forall>p < length (loads st). imageLoadCache st (loads st ! p) = Some p))"

text \<open>An example state: two markers on the map, none highlighted.\<close>

definition hl_ex :: hl_state where
  "hl_ex = \<lparr>currentHighlightedMarker = None,
            classList = [0 \<mapsto> [''leaflet-marker-icon''], 1 \<mapsto> [''leaflet-marker-icon'']]\<rparr>"








section \<open>Data model\<close>

text \<open>
  The document maps a category name to its colour and locations; the order of the list
  is the order in which \<^verbatim>\<open>for (const category in categories)\<close> visits the keys.
  \<open>lat\<close> and \<open>lng\<close> are the texts that \<^verbatim>\<open>parseFloat\<close> reads. \<open>locations\<close> and
  \<open>relatedItems\<close> are \<open>None\<close> when the field is missing or is not an array, \<open>name\<close>,
  \<open>info\<close> and \<open>img\<close> when the field is missing. \<open>marker\<close> is the back-reference
  that \<^verbatim>\<open>loadCategories\<close> stores in the location.
\<close>

record 'c location =
  lat :: string
  lng :: string
  name :: "'c list option"
  info :: "'c list option"
  img :: "string option"
  relatedItems :: "'c list list option"
  marker :: "nat option"

record 'c category =
  color :: string
  locations :: "'c location list option"

type_synonym 'c document = "('c list \<times> 'c category) list"

record 'c marker_obj =
  m_lat :: jsnum
  m_lng :: jsnum
  m_title :: "'c list option"
  m_icon :: "string option"

datatype js_error = Error string | TypeError string | SyntaxError string

record 'c match =
  m_location :: "'c location"
  m_category :: "'c list"
  matchedRelatedItems :: "'c list list"

text \<open>
  \<open>markerObjs\<close> holds every marker created so far; a handle is the index of its marker.
  \<open>markersGroup\<close> lists the handles in the layer group, \<open>sidebar\<close> the accordion (a
  category with the names of its rows), \<open>console\<close> the errors logged by the loader.
\<close>

record 'c map_state =
  categories :: "'c document"
  markerObjs :: "'c marker_obj list"
  markersGroup :: "nat list"
  sidebar :: "('c list \<times> 'c list option list) list"
  console :: "js_error list"
  searchDisplay :: bool
  searchResults :: "'c match list"

definition addLayer :: "nat \<Rightarrow> nat list \<Rightarrow> nat list" where
  "addLayer h g = (if h \<in> set g then g else g @ [h])"

definition removeLayer :: "nat \<Rightarrow> nat list \<Rightarrow> nat list" where
  "removeLayer h g = filter (\<lambda>x. x \<noteq> h) g"

section \<open>Loading the document\<close>

text \<open>
  \<^verbatim>\<open>L.marker\<close> belongs to the map library, which is not part of the script. What the
  script depends on is whether the library accepts a pair of coordinates or throws;
  \<open>valid\<close> is that test. \<open>leaflet_valid\<close> is the test of the library the page loads:
  its \<^verbatim>\<open>LatLng\<close> throws on NaN.
\<close>

definition leaflet_valid :: "jsnum \<Rightarrow> jsnum \<Rightarrow> bool" where
  "leaflet_valid la lo = (\<not> isNaN la \<and> \<not> isNaN lo)"

definition L_marker ::
  "(jsnum \<Rightarrow> jsnum \<Rightarrow> bool) \<Rightarrow> jsnum \<Rightarrow> jsnum \<Rightarrow> 'c list option \<Rightarrow> string option
     \<Rightarrow> 'c map_state \<Rightarrow> js_error + nat \<times> 'c map_state" where
  "L_marker valid la lo t ic st =
     (if valid la lo then
        Inr (length (markerObjs st),
             st\<lparr>markerObjs := markerObjs st @ [\<lparr>m_lat = la, m_lng = lo, m_title = t, m_icon = ic\<rparr>]\<rparr>)
      else Inl (Error ''Invalid LatLng object''))"

text \<open>
  The body of \<^verbatim>\<open>categoryData.locations.forEach\<close>: the marker is created from the
  parsed coordinates, added to the group and stored in the location. An exception ends
  the loop; what was done before it stays done. The result is the locations as the loop
  left them, the state, and the exception if there was one.
\<close>

fun place_locations ::
  "(jsnum \<Rightarrow> jsnum \<Rightarrow> bool) \<Rightarrow> string option \<Rightarrow> 'c location list \<Rightarrow> 'c map_state
     \<Rightarrow> 'c location list \<times> 'c map_state \<times> js_error option" where
  "place_locations valid ic [] st = ([], st, None)"
| "place_locations valid ic (l # ls) st =
     (case L_marker valid (parseFloat (lat l)) (parseFloat (lng l)) (name l) ic st of
        Inl e \<Rightarrow> (l # ls, st, Some e)
      | Inr (h, st1) \<Rightarrow>
          (case place_locations valid ic ls (st1\<lparr>markersGroup := addLayer h (markersGroup st1)\<rparr>) of
             (ls', st2, e) \<Rightarrow> (l\<lparr>marker := Some h\<rparr> # ls', st2, e)))"

text \<open>
  The loop of \<^verbatim>\<open>loadCategories\<close> over the categories. A category without a
  \<open>locations\<close> array makes \<^verbatim>\<open>categoryData.locations.forEach\<close> throw. The panels are
  collected in a fragment.
\<close>

fun place_categories ::
  "(jsnum \<Rightarrow> jsnum \<Rightarrow> bool) \<Rightarrow> ('c list \<rightharpoonup> string) \<Rightarrow> 'c document \<Rightarrow> 'c map_state
     \<Rightarrow> 'c document \<times> ('c list \<times> 'c list option list) list \<times> 'c map_state
        \<times> js_error option" where
  "place_categories valid icons [] st = ([], [], st, None)"
| "place_categories valid icons ((c, cd) # rest) st =
     (case locations cd of
        None \<Rightarrow> ((c, cd) # rest, [], st, Some (TypeError ''categoryData.locations is undefined''))
      | Some ls \<Rightarrow>
          (case place_locations valid (icons c) ls st of
             (ls', st1, Some e) \<Rightarrow> ((c, cd\<lparr>locations := Some ls'\<rparr>) # rest, [], st1, Some e)
           | (ls', st1, None) \<Rightarrow>
               (case place_categories valid icons rest st1 of
                  (rest', panels, st2, e) \<Rightarrow>
                    ((c, cd\<lparr>locations := Some ls'\<rparr>) # rest', (c, map name ls') # panels, st2, e))))"

text \<open>\<^verbatim>\<open>loadCategories\<close>: the fragment reaches the page only when the loop ends
  without an exception.\<close>

definition loadCategories ::
  "(jsnum \<Rightarrow> jsnum \<Rightarrow> bool) \<Rightarrow> ('c list \<rightharpoonup> string) \<Rightarrow> 'c map_state
     \<Rightarrow> 'c map_state \<times> js_error option" where
  "loadCategories valid icons st =
     (case place_categories valid icons (categories st) st of
        (cats, panels, st1, None) \<Rightarrow> (st1\<lparr>categories := cats, sidebar := sidebar st1 @ panels\<rparr>, None)
      | (cats, panels, st1, Some e) \<Rightarrow> (st1\<lparr>categories := cats\<rparr>, Some e))"

definition categoryIcons :: "'c document \<Rightarrow> ('c list \<rightharpoonup> string)" where
  "categoryIcons d = map_of (map (\<lambda>(c, cd). (c, color cd)) d)"

text \<open>
  \<^verbatim>\<open>loadData\<close> in two parts: what the call does before it returns, and what its
  promise chain does when the fetch has settled with a response.
\<close>

datatype 'c response = FetchFailed | NotOk | BadJson | Ok "'c document"

definition loadData_call :: "'c map_state \<Rightarrow> 'c map_state" where
  "loadData_call st = st\<lparr>markersGroup := [], sidebar := []\<rparr>"

definition loadData_then ::
  "(jsnum \<Rightarrow> jsnum \<Rightarrow> bool) \<Rightarrow> 'c response \<Rightarrow> 'c map_state \<Rightarrow> 'c map_state" where
  "loadData_then valid r st =
     (case r of
        FetchFailed \<Rightarrow> st\<lparr>console := console st @ [TypeError ''Failed to fetch'']\<rparr>
      | NotOk \<Rightarrow> st\<lparr>console := console st @ [Error ''Network response was not ok'']\<rparr>
      | BadJson \<Rightarrow> st\<lparr>console := console st @ [SyntaxError ''JSON.parse'']\<rparr>
      | Ok data \<Rightarrow>
          (case loadCategories valid (categoryIcons data) (st\<lparr>categories := data\<rparr>) of
             (st', None) \<Rightarrow> st'
           | (st', Some e) \<Rightarrow> st'\<lparr>console := console st' @ [e]\<rparr>))"

text \<open>The markers a document asks for: one for each location of each category, in
  the order of the document, at the parsed coordinates.\<close>

definition mk_marker :: "string option \<Rightarrow> 'c location \<Rightarrow> 'c marker_obj" where
  "mk_marker ic l =
     \<lparr>m_lat = parseFloat (lat l), m_lng = parseFloat (lng l), m_title = name l, m_icon = ic\<rparr>"

definition markers_for :: "('c list \<rightharpoonup> string) \<Rightarrow> 'c document \<Rightarrow> 'c marker_obj list" where
  "markers_for icons d =
     concat (map (\<lambda>(c, cd).
        map (mk_marker (icons c)) (case locations cd of None \<Rightarrow> [] | Some ls \<Rightarrow> ls)) d)"

definition implied_markers :: "'c document \<Rightarrow> 'c marker_obj list" where
  "implied_markers d = markers_for (categoryIcons d) d"

definition placeable :: "(jsnum \<Rightarrow> jsnum \<Rightarrow> bool) \<Rightarrow> 'c document \<Rightarrow> bool" where
  "placeable valid d =
     (\<forall>(c, cd) \<in> set d.
        case locations cd of
          None \<Rightarrow> False
        | Some ls \<Rightarrow> \<forall>l \<in> set ls. valid (parseFloat (lat l)) (parseFloat (lng l)))"

text \<open>The group holds no handle that the state does not know.\<close>

definition group_ok :: "'c map_state \<Rightarrow> bool" where
  "group_ok st = (\<forall>h \<in> set (markersGroup st). h < length (markerObjs st))"

definition map_init :: "'c map_state" where
  "map_init = \<lparr>categories = [], markerObjs = [], markersGroup = [], sidebar = [],
               console = [], searchDisplay = False, searchResults = []\<rparr>"

section \<open>Search\<close>

text \<open>
  The matching of the \<^verbatim>\<open>input\<close> handler. \<open>lower\<close> is \<^verbatim>\<open>toLowerCase\<close>; \<open>query\<close>
  is the value of the field, trimmed and lower-cased.
\<close>

definition nameMatches :: "('c list \<Rightarrow> 'c list) \<Rightarrow> 'c list \<Rightarrow> 'c location \<Rightarrow> bool" where
  "nameMatches lower query l =
     (case name l of None \<Rightarrow> False | Some n \<Rightarrow> n \<noteq> [] \<and> str_includes (lower n) query)"

definition matchingRelatedItems ::
  "('c list \<Rightarrow> 'c list) \<Rightarrow> 'c list \<Rightarrow> 'c location \<Rightarrow> 'c list list option" where
  "matchingRelatedItems lower query l =
     (case relatedItems l of
        None \<Rightarrow> None
      | Some items \<Rightarrow> Some (filter (\<lambda>item. str_includes (lower item) query) items))"

definition relatedItemMatches :: "('c list \<Rightarrow> 'c list) \<Rightarrow> 'c list \<Rightarrow> 'c location \<Rightarrow> bool" where
  "relatedItemMatches lower query l =
     (case matchingRelatedItems lower query l of
        None \<Rightarrow> False
      | Some items \<Rightarrow> 0 < length items)"

fun collect_locations ::
  "('c list \<Rightarrow> 'c list) \<Rightarrow> 'c list \<Rightarrow> 'c list \<Rightarrow> 'c location list \<Rightarrow> 'c match list
     \<Rightarrow> 'c match list" where
  "collect_locations lower query c [] ms = ms"
| "collect_locations lower query c (l # ls) ms =
     collect_locations lower query c ls
       (if nameMatches lower query l \<or> relatedItemMatches lower query l then
          ms @ [\<lparr>m_location = l, m_category = c,
                  matchedRelatedItems =
                    (case matchingRelatedItems lower query l of
                       None \<Rightarrow> []
                     | Some items \<Rightarrow> items)\<rparr>]
        else ms)"

fun collect_matches ::
  "('c list \<Rightarrow> 'c list) \<Rightarrow> 'c list \<Rightarrow> 'c document \<Rightarrow> 'c match list \<Rightarrow> 'c match list" where
  "collect_matches lower query [] ms = ms"
| "collect_matches lower query ((c, cd) # rest) ms =
     (case locations cd of
        None \<Rightarrow> collect_matches lower query rest ms
      | Some ls \<Rightarrow> collect_matches lower query rest (collect_locations lower query c ls ms))"

definition computeMatches ::
  "('c list \<Rightarrow> 'c list) \<Rightarrow> 'c list \<Rightarrow> 'c document \<Rightarrow> 'c match list" where
  "computeMatches lower query d = collect_matches lower query d []"

text \<open>The loops that attach every marker of the document to the group, detach every
  one, and attach those of the matches.\<close>

fun show_all :: "'c document \<Rightarrow> nat list \<Rightarrow> nat list" where
  "show_all [] g = g"
| "show_all ((c, cd) # rest) g =
     (case locations cd of
        None \<Rightarrow> show_all rest g
      | Some ls \<Rightarrow>
          show_all rest
            (foldl (\<lambda>g l. case marker l of None \<Rightarrow> g | Some h \<Rightarrow> addLayer h g) g ls))"

fun hide_all :: "'c document \<Rightarrow> nat list \<Rightarrow> nat list" where
  "hide_all [] g = g"
| "hide_all ((c, cd) # rest) g =
     (case locations cd of
        None \<Rightarrow> hide_all rest g
      | Some ls \<Rightarrow>
          hide_all rest
            (foldl (\<lambda>g l. case marker l of None \<Rightarrow> g | Some h \<Rightarrow> removeLayer h g) g ls))"

definition show_matches :: "'c match list \<Rightarrow> nat list \<Rightarrow> nat list" where
  "show_matches ms g =
     foldl (\<lambda>g m. case marker (m_location m) of None \<Rightarrow> g | Some h \<Rightarrow> addLayer h g) g ms"

text \<open>
  The \<^verbatim>\<open>input\<close> handler of the search field; \<open>v\<close> is the value of the field, \<open>ws\<close>
  the white space that \<^verbatim>\<open>trim\<close> removes and \<open>lower\<close> is \<^verbatim>\<open>toLowerCase\<close>.
\<close>

definition search_input ::
  "('c \<Rightarrow> bool) \<Rightarrow> ('c list \<Rightarrow> 'c list) \<Rightarrow> 'c list \<Rightarrow> 'c map_state \<Rightarrow> 'c map_state" where
  "search_input ws lower v st =
     (let query = lower (trim_by ws v)
      in if query = [] then
           st\<lparr>searchResults := [], searchDisplay := False,
              markersGroup := show_all (categories st) (markersGroup st)\<rparr>
         else
           let matches = computeMatches lower query (categories st);
               g = show_matches matches (hide_all (categories st) (markersGroup st))
           in if matches = [] then
                st\<lparr>searchResults := [], searchDisplay := False, markersGroup := g\<rparr>
              else
                st\<lparr>searchResults := take 25 matches, searchDisplay := True, markersGroup := g\<rparr>)"

text \<open>
  The locations of a document, in its order, and those shown on the map: the ones whose
  marker is in the group.
\<close>

definition all_locations :: "'c document \<Rightarrow> 'c location list" where
  "all_locations d =
     concat (map (\<lambda>(c, cd). case locations cd of None \<Rightarrow> [] | Some ls \<Rightarrow> ls) d)"

definition visible :: "'c map_state \<Rightarrow> 'c location list" where
  "visible st =
     filter (\<lambda>l. case marker l of None \<Rightarrow> False | Some h \<Rightarrow> h \<in> set (markersGroup st))
       (all_locations (categories st))"

text \<open>
  The words of the specification: \<open>q\<close> is a case-insensitive substring of \<open>s\<close> when
  some run of \<open>s\<close> equals \<open>q\<close> up to the case of the letters, and a location matches
  \<open>q\<close> when \<open>q\<close> is one of its name or of some related item.
\<close>

definition ci_contains :: "('c list \<Rightarrow> 'c list) \<Rightarrow> 'c list \<Rightarrow> 'c list \<Rightarrow> bool" where
  "ci_contains lower s q =
     (\<exists>i \<in> set [0..<Suc (length s)]. lower (take (length q) (drop i s)) = lower q)"

definition spec_match :: "('c list \<Rightarrow> 'c list) \<Rightarrow> 'c list \<Rightarrow> 'c location \<Rightarrow> bool" where
  "spec_match lower q l =
     ((case name l of None \<Rightarrow> False | Some n \<Rightarrow> ci_contains lower n q)
      \<or> (case relatedItems l of
           None \<Rightarrow> False
         | Some items \<Rightarrow> \<exists>item \<in> set items. ci_contains lower item q))"

text \<open>
  What the handler tests: a location matches \<open>q\<close> when the lower-cased \<open>q\<close> is a run of
  its lower-cased name or of some lower-cased related item.
\<close>

definition lowered_match :: "('c list \<Rightarrow> 'c list) \<Rightarrow> 'c list \<Rightarrow> 'c location \<Rightarrow> bool" where
  "lowered_match lower q l =
     ((case name l of None \<Rightarrow> False | Some n \<Rightarrow> sublist (lower q) (lower n))
      \<or> (case relatedItems l of
           None \<Rightarrow> False
         | Some items \<Rightarrow> \<exists>item \<in> set items. sublist (lower q) (lower item)))"

section \<open>Focusing a location\<close>

text \<open>
  \<open>getMaxZoom\<close> and \<open>getMinZoom\<close> are what the map surface answers, \<open>None\<close> for
  \<^verbatim>\<open>null\<close> or \<^verbatim>\<open>undefined\<close>. The view is the centre and zoom last set, and the
  follow-ups scheduled with \<^verbatim>\<open>setTimeout\<close>, each with its delay and its location.
\<close>

record surface =
  getMaxZoom :: "rat option"
  getMinZoom :: "rat option"

record 'c view_state =
  center :: "(jsnum \<times> jsnum) option"
  zoom :: rat
  timers :: "(nat \<times> 'c location) list"

definition clampedZoom :: "surface \<Rightarrow> rat option \<Rightarrow> rat" where
  "clampedZoom m z =
     (let defaultZoom = 24 / 10;
          requestedZoom = (case z of Some r \<Rightarrow> r | None \<Rightarrow> defaultZoom);
          maxZoom = (case getMaxZoom m of Some x \<Rightarrow> x | None \<Rightarrow> 3);
          minZoom = (case getMinZoom m of Some x \<Rightarrow> x | None \<Rightarrow> - 10)
      in min maxZoom (max requestedZoom minZoom))"

definition focusLocation ::
  "surface \<Rightarrow> 'c location option \<Rightarrow> rat option \<Rightarrow> 'c view_state \<Rightarrow> 'c view_state" where
  "focusLocation m loc z st =
     (case loc of
        None \<Rightarrow> st
      | Some l \<Rightarrow>
          if isNaN (parseFloat (lat l)) \<or> isNaN (parseFloat (lng l)) then st
          else st\<lparr>center := Some (parseFloat (lat l), parseFloat (lng l)),
                  zoom := clampedZoom m z,
                  timers := timers st @ [(350, l)]\<rparr>)"

text \<open>The map as the script creates it.\<close>

definition the_map :: surface where
  "the_map = \<lparr>getMaxZoom = Some 10, getMinZoom = Some (- 15)\<rparr>"

text \<open>Example data.\<close>

definition loc_ex :: "string \<Rightarrow> string \<Rightarrow> char location" where
  "loc_ex la lo = \<lparr>lat = la, lng = lo, name = Some ''Lab'', info = None, img = None,
                  relatedItems = None, marker = None\<rparr>"

definition view_init :: "'c view_state" where
  "view_init = \<lparr>center = None, zoom = 1, timers = []\<rparr>"

text \<open>Example documents.\<close>

definition named :: "string \<Rightarrow> string \<Rightarrow> string \<Rightarrow> char location" where
  "named n la lo = (loc_ex la lo)\<lparr>name := Some n\<rparr>"

definition doc_first :: "char document" where
  "doc_first = [(''Labs'', \<lparr>color = ''red'', locations = Some [named ''First'' ''1'' ''2'']\<rparr>)]"

definition doc_second :: "char document" where
  "doc_second = [(''Shops'', \<lparr>color = ''blue'', locations = Some [named ''Second'' ''3'' ''4'']\<rparr>)]"

definition doc_bad :: "char document" where
  "doc_bad = [(''Labs'', \<lparr>color = ''red'',
       locations = Some [named ''Bad'' ''abc'' ''1'', named ''Good'' ''1'' ''2'']\<rparr>)]"

text \<open>The test and the entry of the loop that collects the matches.\<close>

definition code_match :: "('c list \<Rightarrow> 'c list) \<Rightarrow> 'c list \<Rightarrow> 'c location \<Rightarrow> bool" where
  "code_match lower query l = (nameMatches lower query l \<or> relatedItemMatches lower query l)"

definition mk_match ::
  "('c list \<Rightarrow> 'c list) \<Rightarrow> 'c list \<Rightarrow> 'c list \<Rightarrow> 'c location \<Rightarrow> 'c match" where
  "mk_match lower query c l =
     \<lparr>m_location = l, m_category = c,
      matchedRelatedItems =
        (case matchingRelatedItems lower query l of None \<Rightarrow> [] | Some items \<Rightarrow> items)\<rparr>"

text \<open>A document with one laboratory and its state after loading.\<close>

definition lab :: "char location" where
  "lab = (named ''Meth Lab 1'' ''12.345678'' ''-9.876543'')
           \<lparr>relatedItems := Some [''Thermite'', ''Keycard''], marker := Some 0\<rparr>"

definition doc_lab :: "char document" where
  "doc_lab = [(''Labs'', \<lparr>color = ''red'', locations = Some [lab]\<rparr>)]"

definition st_lab :: "char map_state" where
  "st_lab = map_init\<lparr>categories := doc_lab, markersGroup := [0]\<rparr>"

text \<open>A document with one location, whose name is a Greek word in capitals that ends
  with a sigma, and its state after loading.\<close>

definition odos :: "greek location" where
  "odos = \<lparr>lat = ''1'', lng = ''2'',
            name = Some [Cap_Omicron, Cap_Delta, Cap_Omicron, Cap_Sigma], info = None,
            img = None, relatedItems = None, marker = Some 0\<rparr>"

definition st_odos :: "greek map_state" where
  "st_odos = map_init\<lparr>categories := [([Cap_Delta], \<lparr>color = ''red'', locations = Some [odos]\<rparr>)],
                      markersGroup := [0]\<rparr>"

section \<open>Marker authoring\<close>

text \<open>
  \<^verbatim>\<open>x.toFixed(6)\<close> on a finite number, given as the rational it denotes: the sign,
  then the integer nearest to \<open>|x| * 10^6\<close> (the larger one on a tie) written in decimal,
  padded with zeros to seven digits at least, with the point before the last six. From
  \<open>10^21\<close> on the built-in gives the text of \<^verbatim>\<open>ToString\<close> instead, which the model
  takes as the parameter \<open>ts\<close>.
\<close>

definition digitChar :: "int \<Rightarrow> char" where
  "digitChar d = ''0123456789'' ! nat d"

function digits_of :: "int \<Rightarrow> string" where
  "digits_of n = (if n < 10 then [digitChar n] else digits_of (n div 10) @ [digitChar (n mod 10)])"
  by pat_completeness auto
termination
  by (relation "measure nat") auto

declare digits_of.simps [simp del]

definition toFixed6 :: "(rat \<Rightarrow> string) \<Rightarrow> rat \<Rightarrow> string" where
  "toFixed6 ts x =
     (let s = (if x < 0 then ''-'' else []);
          y = \<bar>x\<bar>
      in if 10 ^ 21 \<le> y then s @ ts y
         else
           let n = \<lfloor>y * 10 ^ 6 + 1 / 2\<rfloor>;
               m = digits_of n;
               z = (if length m \<le> 6 then replicate (7 - length m) CHR ''0'' @ m else m);
               k = length z
           in s @ take (k - 6) z @ ''.'' @ drop (k - 6) z)"

text \<open>
  The fields of the editing popup: the three inputs and the rows of related items, each
  with its name and its description. \<open>markerData\<close> is the record that the handler of
  the copy button serialises.
\<close>

record form =
  marker_name :: string
  marker_img :: string
  marker_info :: string
  related_rows :: "(string \<times> string) list"

record markerData =
  md_id :: nat
  md_lat :: string
  md_lng :: string
  md_name :: string
  md_img :: string
  md_info :: string
  md_relatedItems :: "string list"

fun collect_items :: "(string \<times> string) list \<Rightarrow> string list \<Rightarrow> string list" where
  "collect_items [] acc = acc"
| "collect_items ((n, d) # rows) acc =
     (let itemName = trim n
      in collect_items rows (if itemName \<noteq> [] then acc @ [itemName] else acc))"

text \<open>\<open>now\<close> is the value of \<^verbatim>\<open>Date.now()\<close>, \<open>p\<close> the point the draft was dropped at.\<close>

definition build_markerData ::
  "(rat \<Rightarrow> string) \<Rightarrow> nat \<Rightarrow> rat \<times> rat \<Rightarrow> form \<Rightarrow> markerData" where
  "build_markerData ts now p f =
     \<lparr>md_id = now,
      md_lat = toFixed6 ts (fst p),
      md_lng = toFixed6 ts (snd p),
      md_name = (if marker_name f \<noteq> [] then marker_name f else ''New Location''),
      md_img = (if marker_img f \<noteq> [] then marker_img f else []),
      md_info = (if marker_info f \<noteq> [] then marker_info f else []),
      md_relatedItems = collect_items (related_rows f) []\<rparr>"

text \<open>
  The draft marker during and after the commit: whether it is on the map, whether its
  popup shows the confirmation, the writes handed to the clipboard and not yet settled,
  what the clipboard holds, the alerts shown, the console, and the delays of the pending
  \<^verbatim>\<open>setTimeout\<close> calls that remove the marker.
\<close>

record draft_state =
  onMap :: bool
  copiedShown :: bool
  pendingWrites :: "markerData list"
  clipboard :: "markerData option"
  alerts :: "string list"
  consoleLog :: "string list"
  removals :: "nat list"

text \<open>
  \<^verbatim>\<open>copyToClipboard\<close>: \<open>api\<close> tells whether \<^verbatim>\<open>navigator.clipboard\<close> exists. Where it
  does not (a page that is not served over HTTPS or from localhost), the call
  \<^verbatim>\<open>navigator.clipboard.writeText\<close> throws before any promise exists; otherwise the
  write is pending until its promise settles.
\<close>

definition copyToClipboard :: "bool \<Rightarrow> markerData \<Rightarrow> draft_state \<Rightarrow> js_error + draft_state" where
  "copyToClipboard api md st =
     (if api then Inr (st\<lparr>pendingWrites := pendingWrites st @ [md]\<rparr>)
      else Inl (TypeError ''navigator.clipboard is undefined''))"

text \<open>
  The click handler of the copy button: it builds the record, hands it to
  \<^verbatim>\<open>copyToClipboard\<close>, then binds the confirmation to the popup and schedules the
  removal of the marker. An exception of \<^verbatim>\<open>copyToClipboard\<close> leaves the handler at
  once, with the state as it was.
\<close>

definition copy_click ::
  "bool \<Rightarrow> (rat \<Rightarrow> string) \<Rightarrow> nat \<Rightarrow> rat \<times> rat \<Rightarrow> form \<Rightarrow> draft_state
     \<Rightarrow> js_error + draft_state" where
  "copy_click api ts now p f st =
     (case copyToClipboard api (build_markerData ts now p f) st of
        Inl e \<Rightarrow> Inl e
      | Inr st1 \<Rightarrow> Inr (st1\<lparr>copiedShown := True, removals := removals st1 @ [1500]\<rparr>))"

text \<open>The promise of \<^verbatim>\<open>navigator.clipboard.writeText\<close> settles, for the oldest
  pending write: \<^verbatim>\<open>copyToClipboard\<close> logs a success, and logs and alerts a failure.\<close>

definition clipboard_settled :: "bool \<Rightarrow> draft_state \<Rightarrow> draft_state" where
  "clipboard_settled ok st =
     (case pendingWrites st of
        [] \<Rightarrow> st
      | md # rest \<Rightarrow>
          if ok then
            st\<lparr>pendingWrites := rest, clipboard := Some md,
               consoleLog := consoleLog st @ [''Copied to clipboard successfully!'']\<rparr>
          else
            st\<lparr>pendingWrites := rest,
               consoleLog := consoleLog st @ [''Failed to copy text to clipboard:''],
               alerts := alerts st
                 @ [''Copying to clipboard failed. Ensure you are using HTTPS or localhost.'']\<rparr>)"

text \<open>The oldest pending timer fires: \<^verbatim>\<open>map.removeLayer(marker)\<close>.\<close>

definition removal_fired :: "draft_state \<Rightarrow> draft_state" where
  "removal_fired st =
     (case removals st of [] \<Rightarrow> st | d # rest \<Rightarrow> st\<lparr>removals := rest, onMap := False\<rparr>)"

text \<open>The \<^verbatim>\<open>popupclose\<close> handler of the draft marker: \<^verbatim>\<open>map.removeLayer(marker)\<close>.\<close>

definition popupclose :: "draft_state \<Rightarrow> draft_state" where
  "popupclose st = st\<lparr>onMap := False\<rparr>"

text \<open>A draft whose popup is open for editing.\<close>

definition draft_open :: draft_state where
  "draft_open = \<lparr>onMap = True, copiedShown = False, pendingWrites = [], clipboard = None,
                 alerts = [], consoleLog = [], removals = []\<rparr>"

definition form_ex :: form where
  "form_ex = \<lparr>marker_name = ''Meth Lab 1'', marker_img = [], marker_info = [],
              related_rows = [(''Thermite'', ''x''), (''   '', ''only a description''),
                              ('' Keycard '', [])]\<rparr>"

text \<open>The point of the example.\<close>

definition point_ex :: "rat \<times> rat" where
  "point_ex = (12345678 / 1000000, - 9876543 / 1000000)"

section \<open>Properties\<close>

subsection \<open>Create-marker mode is one-shot\<close>

lemma run_events_append:
  "run_events (es @ fs) st = run_events fs (run_events es st)"
  by (simp add: run_events_def)






subsection \<open>Highlight state\<close>

lemma cur_highlightMarker: "currentHighlightedMarker (highlightMarker m st) = Some m"
  by (simp add: highlightMarker_def Let_def split: option.splits)

lemma dom_highlightMarker:
  "(classList (highlightMarker m st) h = None) = (classList st h = None)"
  by (auto simp: highlightMarker_def Let_def split: option.splits if_splits)

lemma emphasised_highlightMarker:
  assumes "hl_inv st" and "emphasised (highlightMarker m st) h"
  shows "h = m"
proof (rule ccontr)
  assume neq: "h \<noteq> m"
  have "emphasised st h \<and> currentHighlightedMarker st \<noteq> Some h"
    using assms(2) neq
    by (auto simp: highlightMarker_def Let_def emphasised_def classList_remove_def
        split: option.splits if_splits)
  with assms(1) show False by (auto simp: hl_inv_def)
qed

lemma highlightMarker_emphasises:
  "classList st m \<noteq> None \<Longrightarrow> emphasised (highlightMarker m st) m"
  by (auto simp: highlightMarker_def Let_def emphasised_def classList_add_def
      split: option.splits if_splits)

lemma highlightMarker_clears_previous:
  "currentHighlightedMarker st = Some p \<Longrightarrow> p \<noteq> m \<Longrightarrow> \<not> emphasised (highlightMarker m st) p"
  by (auto simp: highlightMarker_def Let_def emphasised_def classList_remove_def
      split: option.splits if_splits)

lemma hl_inv_highlightMarker: "hl_inv st \<Longrightarrow> hl_inv (highlightMarker m st)"
  using emphasised_highlightMarker [of st m] cur_highlightMarker [of m st]
  by (auto simp: hl_inv_def)

lemma emphasised_animationend:
  "emphasised (animationend t m st) h \<Longrightarrow> emphasised st h"
  by (auto simp: animationend_def emphasised_def classList_remove_def
      split: option.splits if_splits)

lemma cur_animationend:
  "currentHighlightedMarker (animationend t m st) = currentHighlightedMarker st"
  by (simp add: animationend_def split: option.splits)

lemma hl_inv_animationend: "hl_inv st \<Longrightarrow> hl_inv (animationend t m st)"
  using emphasised_animationend [of t m st] cur_animationend [of t m st]
  by (auto simp: hl_inv_def)

lemma hl_inv_step: "hl_inv st \<Longrightarrow> hl_inv (hl_step t e st)"
  by (cases e) (simp_all add: hl_inv_highlightMarker hl_inv_animationend)

lemma hl_inv_run: "hl_inv st \<Longrightarrow> hl_inv (hl_run t es st)"
  by (induction es arbitrary: st) (simp_all add: hl_run_def hl_inv_step)

lemma hl_inv_select_all: "hl_inv st \<Longrightarrow> hl_inv (select_all hs st)"
  by (induction hs arbitrary: st) (simp_all add: select_all_def hl_inv_highlightMarker)

lemma dom_select_all: "(classList (select_all hs st) h = None) = (classList st h = None)"
  by (induction hs arbitrary: st) (simp_all add: select_all_def dom_highlightMarker)

lemma select_all_snoc: "select_all (hs @ [hn]) st = highlightMarker hn (select_all hs st)"
  by (simp add: select_all_def)

lemma ends_emphasised:
  "emphasised (foldl (\<lambda>s m. animationend t m s) st ms) h \<Longrightarrow> emphasised st h"
  by (induction ms arbitrary: st) (auto dest: emphasised_animationend)

text \<open>
  Claim C2. From a state where only the current marker can carry the emphasis (as when
  the script has just placed its markers), after \<open>select(h1), ..., select(hn)\<close> the
  current marker is \<open>hn\<close>, every handle that carries the emphasis is \<open>hn\<close>, and
  \<open>hn\<close> carries it when it has an element; a selection clears the emphasis of the
  previously highlighted marker; and the same bound holds in every trace of selections
  and animation ends, in either revision of the script.
\<close>

theorem highlight_at_most_last:
  assumes "hl_inv st"
  shows "currentHighlightedMarker (select_all (hs @ [hn]) st) = Some hn
    \<and> (\<forall>h. emphasised (select_all (hs @ [hn]) st) h \<longrightarrow> h = hn)
    \<and> (classList st hn \<noteq> None \<longrightarrow> emphasised (select_all (hs @ [hn]) st) hn)
    \<and> (\<forall>p. currentHighlightedMarker st = Some p \<and> p \<noteq> hn
          \<longrightarrow> \<not> emphasised (highlightMarker hn st) p)
    \<and> (\<forall>h. emphasised (hl_run transient (es @ [Select hn] @ map AnimationEnd ms) st) h
          \<longrightarrow> h = hn)"
proof -
  have inv: "hl_inv (select_all hs st)"
    using assms by (rule hl_inv_select_all)
  have a: "currentHighlightedMarker (select_all (hs @ [hn]) st) = Some hn"
    by (simp add: select_all_snoc cur_highlightMarker)
  have b: "\<forall>h. emphasised (select_all (hs @ [hn]) st) h \<longrightarrow> h = hn"
    using emphasised_highlightMarker [OF inv] by (simp add: select_all_snoc)
  have c: "classList st hn \<noteq> None \<longrightarrow> emphasised (select_all (hs @ [hn]) st) hn"
    using highlightMarker_emphasises [of "select_all hs st" hn]
    by (simp add: select_all_snoc dom_select_all)
  have d: "\<forall>p. currentHighlightedMarker st = Some p \<and> p \<noteq> hn
          \<longrightarrow> \<not> emphasised (highlightMarker hn st) p"
    using highlightMarker_clears_previous by blast
  have e: "\<forall>h. emphasised (hl_run transient (es @ [Select hn] @ map AnimationEnd ms) st) h
          \<longrightarrow> h = hn"
  proof (intro allI impI)
    fix h
    assume h: "emphasised (hl_run transient (es @ [Select hn] @ map AnimationEnd ms) st) h"
    have run: "hl_run transient (es @ [Select hn] @ map AnimationEnd ms) st =
        foldl (\<lambda>s m. animationend transient m s)
          (highlightMarker hn (hl_run transient es st)) ms"
      by (simp add: hl_run_def foldl_map)
    have "emphasised (highlightMarker hn (hl_run transient es st)) h"
      using h unfolding run by (rule ends_emphasised)
    then show "h = hn"
      using emphasised_highlightMarker [OF hl_inv_run [OF assms]] by blast
  qed
  from a b c d e show ?thesis by blast
qed

lemma hl_ex_inv: "hl_inv hl_ex"
  by (simp add: hl_inv_def hl_ex_def emphasised_def)

theorem highlight_at_most_last_witness:
  "hl_inv hl_ex
   \<and> currentHighlightedMarker (select_all ([0, 1, 0] @ [1]) hl_ex) = Some 1
   \<and> emphasised (select_all ([0, 1, 0] @ [1]) hl_ex) 1
   \<and> \<not> emphasised (select_all ([0, 1, 0] @ [1]) hl_ex) 0
   \<and> \<not> emphasised (highlightMarker 1 (select_all [0] hl_ex)) 0"
proof -
  have el: "classList hl_ex 1 \<noteq> None"
    by (simp add: hl_ex_def)
  have cur: "currentHighlightedMarker (select_all [0] hl_ex) = Some 0 \<and> (0::nat) \<noteq> 1"
    by (simp add: select_all_def cur_highlightMarker)
  from highlight_at_most_last [OF hl_ex_inv, of "[0, 1, 0]" 1 True "[]" "[]"] el
  have "currentHighlightedMarker (select_all ([0, 1, 0] @ [1]) hl_ex) = Some 1
      \<and> emphasised (select_all ([0, 1, 0] @ [1]) hl_ex) 1
      \<and> \<not> emphasised (select_all ([0, 1, 0] @ [1]) hl_ex) 0"
    by auto
  moreover from highlight_at_most_last [OF hl_inv_select_all [OF hl_ex_inv], of "[]" 1 "[0]"] cur
  have "\<not> emphasised (highlightMarker 1 (select_all [0] hl_ex)) 0"
    by blast
  ultimately show ?thesis using hl_ex_inv by blast
qed

subsection \<open>Image cache\<close>

lemma img_inv_distinct: "img_inv st \<Longrightarrow> distinct (loads st)"
  unfolding img_inv_def distinct_conv_nth
  by (metis option.inject)

lemma img_inv_loadImage:
  assumes "img_inv st"
  shows "img_inv (snd (loadImage url st))"
proof (cases "imageLoadCache st url")
  case (Some p)
  with assms show ?thesis by (simp add: loadImage_def)
next
  case None
  let ?n = "length (promises st)"
  from assms have len: "?n = length (loads st)"
    and b1: "\<And>u p. imageLoadCache st u = Some p \<Longrightarrow> p < length (loads st)"
    and b2: "\<And>u p. imageLoadCache st u = Some p \<Longrightarrow> loads st ! p = u"
    and c: "\<And>p. p < length (loads st) \<Longrightarrow> imageLoadCache st (loads st ! p) = Some p"
    by (auto simp: img_inv_def)
  have st': "snd (loadImage url st) =
      st\<lparr>imageLoadCache := (imageLoadCache st)(url \<mapsto> ?n),
         promises := promises st @ [Pending], loads := loads st @ [url]\<rparr>"
    using None by (simp add: loadImage_def)
  have neq: "\<And>p. p < length (loads st) \<Longrightarrow> loads st ! p \<noteq> url"
    using c None by fastforce
  show ?thesis
    unfolding st' img_inv_def
  proof (intro conjI allI impI)
    show "length (promises (st\<lparr>imageLoadCache := (imageLoadCache st)(url \<mapsto> ?n),
         promises := promises st @ [Pending], loads := loads st @ [url]\<rparr>)) =
       length (loads (st\<lparr>imageLoadCache := (imageLoadCache st)(url \<mapsto> ?n),
         promises := promises st @ [Pending], loads := loads st @ [url]\<rparr>))"
      using len by simp
  next
    fix u p
    assume "imageLoadCache (st\<lparr>imageLoadCache := (imageLoadCache st)(url \<mapsto> ?n),
         promises := promises st @ [Pending], loads := loads st @ [url]\<rparr>) u = Some p"
    then have "(u = url \<and> p = ?n) \<or> (u \<noteq> url \<and> imageLoadCache st u = Some p)"
      by (auto split: if_splits)
    then show "p < length (loads (st\<lparr>imageLoadCache := (imageLoadCache st)(url \<mapsto> ?n),
         promises := promises st @ [Pending], loads := loads st @ [url]\<rparr>))"
      using len b1 [of u p] by auto
    from \<open>(u = url \<and> p = ?n) \<or> (u \<noteq> url \<and> imageLoadCache st u = Some p)\<close>
    show "loads (st\<lparr>imageLoadCache := (imageLoadCache st)(url \<mapsto> ?n),
         promises := promises st @ [Pending], loads := loads st @ [url]\<rparr>) ! p = u"
      using len b1 [of u p] b2 [of u p] by (auto simp: nth_append)
  next
    fix p
    assume "p < length (loads (st\<lparr>imageLoadCache := (imageLoadCache st)(url \<mapsto> ?n),
         promises := promises st @ [Pending], loads := loads st @ [url]\<rparr>))"
    then have "p < length (loads st) \<or> p = length (loads st)" by auto
    then show "imageLoadCache (st\<lparr>imageLoadCache := (imageLoadCache st)(url \<mapsto> ?n),
         promises := promises st @ [Pending], loads := loads st @ [url]\<rparr>)
        (loads (st\<lparr>imageLoadCache := (imageLoadCache st)(url \<mapsto> ?n),
         promises := promises st @ [Pending], loads := loads st @ [url]\<rparr>) ! p) = Some p"
      using len c neq by (auto simp: nth_append)
  qed
qed

lemma loadImage_cached:
  "imageLoadCache st url = Some p \<Longrightarrow> loadImage url st = (p, st)"
  by (simp add: loadImage_def)

lemma cache_loadImage:
  "imageLoadCache st u = Some p \<Longrightarrow> imageLoadCache (snd (loadImage url st)) u = Some p"
  by (auto simp: loadImage_def split: option.splits)

lemma settled_loadImage:
  "p < length (promises st) \<Longrightarrow> promises (snd (loadImage url st)) ! p = promises st ! p"
  by (auto simp: loadImage_def nth_append split: option.splits)

lemma length_promises_loadImage:
  "length (promises st) \<le> length (promises (snd (loadImage url st)))"
  by (auto simp: loadImage_def split: option.splits)

lemma img_inv_warming_update [simp]: "img_inv (st\<lparr>warming := w\<rparr>) = img_inv st"
  by (simp add: img_inv_def)

lemma img_inv_idle_update [simp]: "img_inv (st\<lparr>idle := w\<rparr>) = img_inv st"
  by (simp add: img_inv_def)

lemma img_inv_warm_loop: "img_inv st \<Longrightarrow> img_inv (warm_loop us st)"
proof (induction us arbitrary: st)
  case Nil
  then show ?case by simp
next
  case (Cons u us)
  obtain p st' where l: "loadImage u st = (p, st')" by (cases "loadImage u st")
  with Cons.prems img_inv_loadImage [of st u] have "img_inv st'" by simp
  with Cons.IH l show ?case by (simp split: outcome.splits)
qed

lemma cache_warm_loop:
  "imageLoadCache st u = Some p \<Longrightarrow> imageLoadCache (warm_loop us st) u = Some p"
proof (induction us arbitrary: st)
  case Nil
  then show ?case by simp
next
  case (Cons v us)
  obtain q st' where l: "loadImage v st = (q, st')" by (cases "loadImage v st")
  with Cons.prems cache_loadImage [of st u p v] have "imageLoadCache st' u = Some p" by simp
  with Cons.IH l show ?case by (simp split: outcome.splits)
qed

lemma settled_warm_loop:
  "p < length (promises st) \<Longrightarrow>
     promises (warm_loop us st) ! p = promises st ! p
     \<and> length (promises st) \<le> length (promises (warm_loop us st))"
proof (induction us arbitrary: st)
  case Nil
  then show ?case by simp
next
  case (Cons v us)
  obtain q st' where l: "loadImage v st = (q, st')" by (cases "loadImage v st")
  from Cons.prems l settled_loadImage [of p st v] length_promises_loadImage [of st v]
  have s: "promises st' ! p = promises st ! p" "length (promises st) \<le> length (promises st')"
    by simp_all
  with Cons.prems have "p < length (promises st')" by simp
  from Cons.IH [OF this] s l show ?case by (auto split: outcome.splits)
qed

lemma foldl_warm_loop_inv:
  "img_inv st \<Longrightarrow> img_inv (foldl (\<lambda>s w. warm_loop (snd w) s) st ws)"
  by (induction ws arbitrary: st) (simp_all add: img_inv_warm_loop)

lemma foldl_warm_loop_cache:
  "imageLoadCache st u = Some p \<Longrightarrow>
     imageLoadCache (foldl (\<lambda>s w. warm_loop (snd w) s) st ws) u = Some p"
  by (induction ws arbitrary: st) (simp_all add: cache_warm_loop)

lemma foldl_warm_loop_settled:
  "p < length (promises st) \<Longrightarrow>
     promises (foldl (\<lambda>s w. warm_loop (snd w) s) st ws) ! p = promises st ! p"
proof (induction ws arbitrary: st)
  case Nil
  then show ?case by simp
next
  case (Cons w ws)
  from settled_warm_loop [OF Cons.prems, of "snd w"]
  have "promises (warm_loop (snd w) st) ! p = promises st ! p"
    and "p < length (promises (warm_loop (snd w) st))"
    using Cons.prems by auto
  with Cons.IH [of "warm_loop (snd w) st"] show ?case by simp
qed

lemma foldl_warm_loop_length:
  "p < length (promises st) \<Longrightarrow>
     p < length (promises (foldl (\<lambda>s w. warm_loop (snd w) s) st ws))"
proof (induction ws arbitrary: st)
  case Nil
  then show ?case by simp
next
  case (Cons w ws)
  from settled_warm_loop [OF Cons.prems, of "snd w"] Cons.prems
  have "p < length (promises (warm_loop (snd w) st))" by auto
  with Cons.IH [of "warm_loop (snd w) st"] show ?case by simp
qed

lemma img_inv_step: "img_inv st \<Longrightarrow> img_inv (img_step e st)"
proof (cases e)
  case (LoadImage url)
  assume "img_inv st"
  with LoadImage show ?thesis by (simp add: img_inv_loadImage)
next
  case (WarmCache urls limit)
  assume "img_inv st"
  with WarmCache show ?thesis by (simp add: warmCache_def)
next
  case Idle
  assume "img_inv st"
  with Idle show ?thesis
    by (simp add: run_idle_def img_inv_warm_loop split: list.splits)
next
  case (Settled p ok)
  assume i: "img_inv st"
  show ?thesis
  proof (cases "p < length (promises st) \<and> promises st ! p = Pending")
    case True
    have "img_inv (st\<lparr>promises := (promises st)[p := settle ok (loads st ! p)],
              warming := filter (\<lambda>w. fst w \<noteq> p) (warming st)\<rparr>)"
      using i by (simp add: img_inv_def)
    from foldl_warm_loop_inv [OF this] True Settled show ?thesis
      by (simp add: image_settled_def)
  next
    case False
    with i Settled show ?thesis by (auto simp: image_settled_def)
  qed
qed

lemma cache_step:
  "imageLoadCache st u = Some p \<Longrightarrow> imageLoadCache (img_step e st) u = Some p"
proof (cases e)
  case (LoadImage url)
  assume "imageLoadCache st u = Some p"
  with LoadImage show ?thesis by (simp add: cache_loadImage)
next
  case (WarmCache urls limit)
  assume "imageLoadCache st u = Some p"
  with WarmCache show ?thesis by (simp add: warmCache_def)
next
  case Idle
  assume "imageLoadCache st u = Some p"
  with Idle show ?thesis
    by (simp add: run_idle_def cache_warm_loop split: list.splits)
next
  case (Settled q ok)
  assume "imageLoadCache st u = Some p"
  with Settled show ?thesis
    by (simp add: image_settled_def foldl_warm_loop_cache)
qed

lemma settled_step:
  assumes "p < length (promises st)" and "promises st ! p \<noteq> Pending"
  shows "promises (img_step e st) ! p = promises st ! p
         \<and> p < length (promises (img_step e st))"
proof (cases e)
  case (LoadImage url)
  with assms settled_loadImage [of p st url] length_promises_loadImage [of st url]
  show ?thesis by simp
next
  case (WarmCache urls limit)
  with assms show ?thesis by (simp add: warmCache_def)
next
  case Idle
  show ?thesis
  proof (cases "idle st")
    case Nil
    with Idle assms show ?thesis by (simp add: run_idle_def)
  next
    case (Cons tw rest)
    from assms have "p < length (promises (st\<lparr>idle := rest\<rparr>))" by simp
    from settled_warm_loop [OF this, of tw] Idle Cons assms show ?thesis
      by (simp add: run_idle_def)
  qed
next
  case (Settled q ok)
  show ?thesis
  proof (cases "q < length (promises st) \<and> promises st ! q = Pending")
    case True
    with assms have neq: "q \<noteq> p" by auto
    let ?s1 = "st\<lparr>promises := (promises st)[q := settle ok (loads st ! q)],
              warming := filter (\<lambda>w. fst w \<noteq> q) (warming st)\<rparr>"
    let ?ws = "filter (\<lambda>w. fst w = q) (warming st)"
    have lt: "p < length (promises ?s1)" using assms by simp
    have "promises (foldl (\<lambda>s w. warm_loop (snd w) s) ?s1 ?ws) ! p = promises ?s1 ! p"
      using lt by (rule foldl_warm_loop_settled)
    moreover have "promises ?s1 ! p = promises st ! p" using neq by simp
    moreover have "p < length (promises (foldl (\<lambda>s w. warm_loop (snd w) s) ?s1 ?ws))"
      using lt by (rule foldl_warm_loop_length)
    ultimately show ?thesis using True Settled by (simp add: image_settled_def)
  next
    case False
    with assms Settled show ?thesis by (auto simp: image_settled_def)
  qed
qed

lemma distinct_count_le_1: "distinct xs \<Longrightarrow> count_list xs x \<le> 1"
  by (induction xs) auto

lemma img_inv_init: "img_inv img_init"
  by (simp add: img_inv_def img_init_def)

lemma img_inv_run: "img_inv st \<Longrightarrow> img_inv (img_run es st)"
  by (induction es arbitrary: st) (simp_all add: img_run_def img_inv_step)

lemma cache_run:
  "imageLoadCache st u = Some p \<Longrightarrow> imageLoadCache (img_run es st) u = Some p"
  by (induction es arbitrary: st) (simp_all add: img_run_def cache_step)

lemma settled_run:
  "p < length (promises st) \<Longrightarrow> promises st ! p \<noteq> Pending \<Longrightarrow>
     promises (img_run es st) ! p = promises st ! p"
proof (induction es arbitrary: st)
  case Nil
  then show ?case by (simp add: img_run_def)
next
  case (Cons e es)
  from settled_step [OF Cons.prems, of e]
  have "promises (img_step e st) ! p = promises st ! p"
    and "p < length (promises (img_step e st))" by simp_all
  with Cons.IH [of "img_step e st"] Cons.prems(2) show ?case
    by (simp add: img_run_def)
qed

lemma loadImage_caches:
  "imageLoadCache (snd (loadImage url st)) url = Some (fst (loadImage url st))"
  by (simp add: loadImage_def split: option.splits)

text \<open>
  Claim C6. In every trace of the events of a session, each URL is loaded at most once;
  a call of \<^verbatim>\<open>loadImage\<close> after an earlier call for the same URL returns the promise
  of the earlier call and changes nothing, whatever happened in between; and a URL whose
  promise was rejected keeps that rejected promise: later calls return it and load
  nothing. The script has no operation that removes an entry of the cache.
\<close>

theorem image_cache_single_load:
  "count_list (loads (img_run es img_init)) url \<le> 1
   \<and> loadImage url (img_run fs (snd (loadImage url (img_run es img_init)))) =
       (fst (loadImage url (img_run es img_init)),
        img_run fs (snd (loadImage url (img_run es img_init))))
   \<and> (imageLoadCache (img_run es img_init) url = Some p
        \<and> promises (img_run es img_init) ! p = Rejected e
      \<longrightarrow> loadImage url (img_run fs (img_run es img_init)) =
            (p, img_run fs (img_run es img_init))
          \<and> promises (img_run fs (img_run es img_init)) ! p = Rejected e)"
proof -
  let ?s = "img_run es img_init"
  have inv: "img_inv ?s"
    using img_inv_init by (rule img_inv_run)
  have a: "count_list (loads ?s) url \<le> 1"
    using img_inv_distinct [OF inv] by (rule distinct_count_le_1)
  have b: "loadImage url (img_run fs (snd (loadImage url ?s))) =
       (fst (loadImage url ?s), img_run fs (snd (loadImage url ?s)))"
    using cache_run [OF loadImage_caches] by (rule loadImage_cached)
  have c: "imageLoadCache ?s url = Some p \<and> promises ?s ! p = Rejected e
      \<longrightarrow> loadImage url (img_run fs ?s) = (p, img_run fs ?s)
          \<and> promises (img_run fs ?s) ! p = Rejected e"
  proof (intro impI, elim conjE)
    assume cp: "imageLoadCache ?s url = Some p" and rej: "promises ?s ! p = Rejected e"
    from inv cp have lt: "p < length (promises ?s)"
      by (simp add: img_inv_def)
    from rej have np: "promises ?s ! p \<noteq> Pending" by simp
    have "promises (img_run fs ?s) ! p = Rejected e"
      using settled_run [OF lt np, of fs] rej by simp
    moreover have "loadImage url (img_run fs ?s) = (p, img_run fs ?s)"
      using cache_run [OF cp] by (rule loadImage_cached)
    ultimately show "loadImage url (img_run fs ?s) = (p, img_run fs ?s)
          \<and> promises (img_run fs ?s) ! p = Rejected e" by simp
  qed
  from a b c show ?thesis by blast
qed

lemma img_ex_state:
  "img_run [LoadImage ''a.png'', Settled 0 False] img_init =
     \<lparr>imageLoadCache = [''a.png'' \<mapsto> 0],
      promises = [Rejected ''Failed to load image: a.png''],
      loads = [''a.png''], warming = [], idle = []\<rparr>"
  by (simp add: img_run_def img_init_def loadImage_def image_settled_def settle_def)

theorem image_cache_single_load_witness:
  "imageLoadCache (img_run [LoadImage ''a.png'', Settled 0 False] img_init) ''a.png'' = Some 0
   \<and> promises (img_run [LoadImage ''a.png'', Settled 0 False] img_init) ! 0 =
       Rejected ''Failed to load image: a.png''
   \<and> loadImage ''a.png''
        (img_run [LoadImage ''a.png'', WarmCache [''a.png''] 8, Idle, Settled 0 True]
          (img_run [LoadImage ''a.png'', Settled 0 False] img_init)) =
       (0, img_run [LoadImage ''a.png'', WarmCache [''a.png''] 8, Idle, Settled 0 True]
          (img_run [LoadImage ''a.png'', Settled 0 False] img_init))
   \<and> promises (img_run [LoadImage ''a.png'', WarmCache [''a.png''] 8, Idle, Settled 0 True]
          (img_run [LoadImage ''a.png'', Settled 0 False] img_init)) ! 0 =
       Rejected ''Failed to load image: a.png''"
  using image_cache_single_load [of "[LoadImage ''a.png'', Settled 0 False]" "''a.png''"
      "[LoadImage ''a.png'', WarmCache [''a.png''] 8, Idle, Settled 0 True]" 0
      "''Failed to load image: a.png''"]
  by (simp add: img_ex_state)

subsection \<open>Warming the cache\<close>











lemma loads_warm_loop: "set (loads (warm_loop us st)) \<subseteq> set (loads st) \<union> set us"
proof (induction us arbitrary: st)
  case Nil
  then show ?case by simp
next
  case (Cons u us)
  obtain p st' where l: "loadImage u st = (p, st')" by (cases "loadImage u st")
  then have st': "set (loads st') \<subseteq> set (loads st) \<union> {u}"
    by (auto simp: loadImage_def split: option.splits)
  show ?case
  proof (cases "promises st' ! p")
    case Pending
    with l st' show ?thesis by auto
  next
    case (Resolved v)
    with l st' Cons.IH [of st'] show ?thesis by auto
  next
    case (Rejected e)
    with l st' Cons.IH [of st'] show ?thesis by auto
  qed
qed




































subsection \<open>Focusing a location\<close>

lemma parseFloat_abc: "parseFloat ''abc'' = NaN"
  by code_simp

lemma parseFloat_ex1: "parseFloat ''12.5'' = Num (25 / 2)"
  by code_simp

lemma parseFloat_ex2: "parseFloat '' -9.876543xyz'' = Num (- 9876543 / 1000000)"
  by code_simp

lemma clampedZoom_bounds:
  "getMaxZoom m = Some hi \<Longrightarrow> getMinZoom m = Some lo \<Longrightarrow> lo \<le> hi \<Longrightarrow>
     lo \<le> clampedZoom m z \<and> clampedZoom m z \<le> hi"
  by (auto simp: clampedZoom_def Let_def split: option.splits)

text \<open>
  Claim C9. \<^verbatim>\<open>focusLocation\<close> changes nothing when the location is absent or when
  \<^verbatim>\<open>parseFloat\<close> gives NaN for its \<open>lat\<close> or \<open>lng\<close>. Otherwise it sets the view to
  the parsed coordinates at the clamped zoom and schedules the follow-up; with bounds
  \<open>lo \<le> hi\<close> the clamped zoom lies in the bounds, is the requested zoom when that lies
  in the bounds, and is the nearer bound otherwise. With maximum zoom 10 a request for
  999 gives 10.
\<close>

theorem focus_location_clamps:
  "focusLocation m None z st = st
   \<and> (isNaN (parseFloat (lat l)) \<or> isNaN (parseFloat (lng l))
        \<longrightarrow> focusLocation m (Some l) z st = st)
   \<and> (\<not> isNaN (parseFloat (lat l)) \<and> \<not> isNaN (parseFloat (lng l))
        \<longrightarrow> zoom (focusLocation m (Some l) z st) = clampedZoom m z
          \<and> center (focusLocation m (Some l) z st) = Some (parseFloat (lat l), parseFloat (lng l))
          \<and> timers (focusLocation m (Some l) z st) = timers st @ [(350, l)])
   \<and> (getMaxZoom m = Some hi \<and> getMinZoom m = Some lo \<and> lo \<le> hi
        \<longrightarrow> lo \<le> clampedZoom m z \<and> clampedZoom m z \<le> hi
          \<and> (lo \<le> r \<and> r \<le> hi \<longrightarrow> clampedZoom m (Some r) = r)
          \<and> (hi \<le> r \<longrightarrow> clampedZoom m (Some r) = hi)
          \<and> (r \<le> lo \<longrightarrow> clampedZoom m (Some r) = lo))
   \<and> (getMaxZoom m = Some 10 \<longrightarrow> clampedZoom m (Some 999) = 10)"
proof -
  have a: "focusLocation m None z st = st"
    by (simp add: focusLocation_def)
  have b: "isNaN (parseFloat (lat l)) \<or> isNaN (parseFloat (lng l))
        \<longrightarrow> focusLocation m (Some l) z st = st"
    by (simp add: focusLocation_def)
  have c: "\<not> isNaN (parseFloat (lat l)) \<and> \<not> isNaN (parseFloat (lng l))
        \<longrightarrow> zoom (focusLocation m (Some l) z st) = clampedZoom m z
          \<and> center (focusLocation m (Some l) z st) = Some (parseFloat (lat l), parseFloat (lng l))
          \<and> timers (focusLocation m (Some l) z st) = timers st @ [(350, l)]"
    by (simp add: focusLocation_def)
  have d: "getMaxZoom m = Some hi \<and> getMinZoom m = Some lo \<and> lo \<le> hi
        \<longrightarrow> lo \<le> clampedZoom m z \<and> clampedZoom m z \<le> hi
          \<and> (lo \<le> r \<and> r \<le> hi \<longrightarrow> clampedZoom m (Some r) = r)
          \<and> (hi \<le> r \<longrightarrow> clampedZoom m (Some r) = hi)
          \<and> (r \<le> lo \<longrightarrow> clampedZoom m (Some r) = lo)"
    by (auto simp: clampedZoom_def Let_def split: option.splits)
  have e: "getMaxZoom m = Some 10 \<longrightarrow> clampedZoom m (Some 999) = 10"
    by (auto simp: clampedZoom_def Let_def split: option.splits)
  from a b c d e show ?thesis by blast
qed

theorem focus_location_clamps_witness:
  "isNaN (parseFloat (lat (loc_ex ''abc'' ''12.5'')))
   \<and> focusLocation the_map (Some (loc_ex ''abc'' ''12.5'')) (Some 999) view_init = view_init
   \<and> \<not> isNaN (parseFloat (lat (loc_ex ''12.5'' ''12.5'')))
   \<and> \<not> isNaN (parseFloat (lng (loc_ex ''12.5'' ''12.5'')))
   \<and> getMaxZoom the_map = Some 10 \<and> getMinZoom the_map = Some (- 15)
   \<and> zoom (focusLocation the_map (Some (loc_ex ''12.5'' ''12.5'')) (Some 999) view_init) = 10
   \<and> zoom (focusLocation the_map (Some (loc_ex ''12.5'' ''12.5'')) (Some (27 / 10)) view_init)
       = 27 / 10"
proof -
  have p: "parseFloat (lat (loc_ex ''abc'' ''12.5'')) = NaN"
    "parseFloat (lat (loc_ex ''12.5'' ''12.5'')) = Num (25 / 2)"
    "parseFloat (lng (loc_ex ''12.5'' ''12.5'')) = Num (25 / 2)"
    by (simp_all add: loc_ex_def parseFloat_abc parseFloat_ex1)
  have m: "getMaxZoom the_map = Some 10" "getMinZoom the_map = Some (- 15)"
    by (simp_all add: the_map_def)
  have n: "isNaN (parseFloat (lat (loc_ex ''abc'' ''12.5'')))"
    "\<not> isNaN (parseFloat (lat (loc_ex ''12.5'' ''12.5'')))"
    "\<not> isNaN (parseFloat (lng (loc_ex ''12.5'' ''12.5'')))"
    using p by (simp_all add: isNaN_def)
  have r: "(- 15 :: rat) \<le> 10" "(- 15 :: rat) \<le> 27 / 10" "(27 / 10 :: rat) \<le> 10"
    by simp_all
  have "focusLocation the_map (Some (loc_ex ''abc'' ''12.5'')) (Some 999) view_init = view_init"
    using focus_location_clamps [of the_map "Some 999" view_init "loc_ex ''abc'' ''12.5''"
        10 "- 15" 999] n(1)
    by blast
  moreover
  have "zoom (focusLocation the_map (Some (loc_ex ''12.5'' ''12.5'')) (Some 999) view_init) = 10"
    using focus_location_clamps [of the_map "Some 999" view_init "loc_ex ''12.5'' ''12.5''"
        10 "- 15" 999] n(2,3) m(1)
    by metis
  moreover
  have "zoom (focusLocation the_map (Some (loc_ex ''12.5'' ''12.5'')) (Some (27 / 10)) view_init)
       = 27 / 10"
    using focus_location_clamps [of the_map "Some (27 / 10)" view_init
        "loc_ex ''12.5'' ''12.5''" 10 "- 15" "27 / 10"] n(2,3) m r
    by metis
  ultimately show ?thesis using n m by blast
qed

subsection \<open>Loading the document\<close>

lemma addLayer_fresh: "h \<notin> set g \<Longrightarrow> addLayer h g = g @ [h]"
  by (simp add: addLayer_def)

lemma place_locations_valid:
  assumes "\<forall>l \<in> set ls. valid (parseFloat (lat l)) (parseFloat (lng l))"
    and "group_ok st"
  shows "place_locations valid ic ls st =
     (map (\<lambda>(l, h). l\<lparr>marker := Some h\<rparr>)
        (zip ls [length (markerObjs st)..<length (markerObjs st) + length ls]),
      st\<lparr>markerObjs := markerObjs st @ map (mk_marker ic) ls,
         markersGroup := markersGroup st
           @ [length (markerObjs st)..<length (markerObjs st) + length ls]\<rparr>,
      None)"
  using assms
proof (induction ls arbitrary: st)
  case Nil
  then show ?case by simp
next
  case (Cons l ls)
  let ?n = "length (markerObjs st)"
  let ?s1 = "st\<lparr>markerObjs := markerObjs st @ [mk_marker ic l],
                 markersGroup := markersGroup st @ [?n]\<rparr>"
  from Cons.prems(2) have fresh: "?n \<notin> set (markersGroup st)"
    by (auto simp: group_ok_def)
  from Cons.prems(2) have ok1: "group_ok ?s1"
    by (auto simp: group_ok_def less_Suc_eq)
  from Cons.prems(1) have v: "valid (parseFloat (lat l)) (parseFloat (lng l))"
    and vs: "\<forall>l \<in> set ls. valid (parseFloat (lat l)) (parseFloat (lng l))" by simp_all
  have step: "place_locations valid ic (l # ls) st =
      (case place_locations valid ic ls ?s1 of (ls', st2, e) \<Rightarrow> (l\<lparr>marker := Some ?n\<rparr> # ls', st2, e))"
    using v fresh by (simp add: L_marker_def mk_marker_def addLayer_fresh)
  have up: "[?n..<?n + length (l # ls)] = ?n # [Suc ?n..<Suc ?n + length ls]"
    using upt_rec [of ?n "?n + length (l # ls)"] by simp
  show ?case
    unfolding step Cons.IH [OF vs ok1] up
    by simp
qed

lemma place_locations_fresh:
  assumes "group_ok st" and "place_locations valid ic ls st = (ls', st', e)"
  shows "group_ok st' \<and> length (markerObjs st) \<le> length (markerObjs st')
    \<and> (\<forall>h \<in> set (markersGroup st'). h \<in> set (markersGroup st) \<or> length (markerObjs st) \<le> h)"
  using assms
proof (induction ls arbitrary: st ls' st' e)
  case Nil
  then show ?case by auto
next
  case (Cons l ls)
  show ?case
  proof (cases "valid (parseFloat (lat l)) (parseFloat (lng l))")
    case False
    with Cons.prems show ?thesis by (auto simp: L_marker_def)
  next
    case True
    let ?n = "length (markerObjs st)"
    let ?s1 = "st\<lparr>markerObjs := markerObjs st @ [mk_marker ic l],
                   markersGroup := markersGroup st @ [?n]\<rparr>"
    from Cons.prems(1) have fresh: "?n \<notin> set (markersGroup st)"
      by (auto simp: group_ok_def)
    from Cons.prems(1) have ok1: "group_ok ?s1"
      by (auto simp: group_ok_def less_Suc_eq)
    obtain ls2 st2 e2 where r: "place_locations valid ic ls ?s1 = (ls2, st2, e2)"
      by (cases "place_locations valid ic ls ?s1") auto
    from Cons.prems(2) True fresh r have st': "st' = st2"
      by (simp add: L_marker_def mk_marker_def addLayer_fresh)
    from Cons.IH [OF ok1 r] show ?thesis
      unfolding st' by auto
  qed
qed

lemma place_locations_fields:
  "place_locations valid ic ls st = (ls', st', e) \<Longrightarrow>
     sidebar st' = sidebar st \<and> console st' = console st \<and> categories st' = categories st"
proof (induction ls arbitrary: st ls' st' e)
  case Nil
  then show ?case by auto
next
  case (Cons l ls)
  show ?case
  proof (cases "valid (parseFloat (lat l)) (parseFloat (lng l))")
    case False
    with Cons.prems show ?thesis by (auto simp: L_marker_def)
  next
    case True
    let ?s1 = "st\<lparr>markerObjs := markerObjs st @ [mk_marker ic l],
                   markersGroup := addLayer (length (markerObjs st)) (markersGroup st)\<rparr>"
    obtain ls2 st2 e2 where r: "place_locations valid ic ls ?s1 = (ls2, st2, e2)"
      by (cases "place_locations valid ic ls ?s1") auto
    from Cons.prems True r have st': "st' = st2"
      by (simp add: L_marker_def mk_marker_def)
    from Cons.IH [OF r] show ?thesis
      unfolding st' by simp
  qed
qed

lemma place_categories_valid:
  assumes "placeable valid d" and "group_ok st"
  shows "\<exists>cats panels. place_categories valid icons d st =
     (cats, panels,
      st\<lparr>markerObjs := markerObjs st @ markers_for icons d,
         markersGroup := markersGroup st
           @ [length (markerObjs st)..<length (markerObjs st) + length (markers_for icons d)]\<rparr>,
      None)"
  using assms
proof (induction d arbitrary: st)
  case Nil
  then show ?case by (simp add: markers_for_def)
next
  case (Cons x rest)
  obtain c cd where x: "x = (c, cd)" by (cases x)
  from Cons.prems(1) x obtain ls where ls: "locations cd = Some ls"
    and v: "\<forall>l \<in> set ls. valid (parseFloat (lat l)) (parseFloat (lng l))"
    and rest: "placeable valid rest"
    by (auto simp: placeable_def split: option.splits)
  let ?n = "length (markerObjs st)"
  let ?s1 = "st\<lparr>markerObjs := markerObjs st @ map (mk_marker (icons c)) ls,
         markersGroup := markersGroup st @ [?n..<?n + length ls]\<rparr>"
  note pl = place_locations_valid [OF v Cons.prems(2), of "icons c"]
  from Cons.prems(2) have ok1: "group_ok ?s1"
    by (auto simp: group_ok_def)
  from Cons.IH [OF rest ok1] obtain cats panels where
    r: "place_categories valid icons rest ?s1 =
      (cats, panels,
       ?s1\<lparr>markerObjs := markerObjs ?s1 @ markers_for icons rest,
           markersGroup := markersGroup ?s1
             @ [length (markerObjs ?s1)..<length (markerObjs ?s1) + length (markers_for icons rest)]\<rparr>,
       None)"
    by blast
  have m: "markers_for icons (x # rest) = map (mk_marker (icons c)) ls @ markers_for icons rest"
    using x ls by (simp add: markers_for_def)
  have u: "[?n..<?n + length ls] @ [?n + length ls..<?n + length ls + length (markers_for icons rest)]
      = [?n..<?n + (length ls + length (markers_for icons rest))]"
    using upt_add_eq_append [of ?n "?n + length ls" "length (markers_for icons rest)"]
    by (simp add: add.assoc)
  show ?case
    unfolding x using ls pl r u by (simp add: m [unfolded x])
qed

lemma place_categories_fresh:
  assumes "group_ok st" and "place_categories valid icons d st = (cats, panels, st', e)"
  shows "group_ok st' \<and> length (markerObjs st) \<le> length (markerObjs st')
    \<and> (\<forall>h \<in> set (markersGroup st'). h \<in> set (markersGroup st) \<or> length (markerObjs st) \<le> h)"
  using assms
proof (induction d arbitrary: st cats panels st' e)
  case Nil
  then show ?case by auto
next
  case (Cons x rest)
  obtain c cd where x: "x = (c, cd)" by (cases x)
  show ?case
  proof (cases "locations cd")
    case None
    with Cons.prems x show ?thesis by auto
  next
    case (Some ls)
    obtain ls1 st1 e1 where pl: "place_locations valid (icons c) ls st = (ls1, st1, e1)"
      by (cases "place_locations valid (icons c) ls st") auto
    note f1 = place_locations_fresh [OF Cons.prems(1) pl]
    show ?thesis
    proof (cases e1)
      case (Some err)
      with Cons.prems(2) x \<open>locations cd = Some ls\<close> pl have "st' = st1" by simp
      with f1 show ?thesis by simp
    next
      case None
      obtain cats2 panels2 st2 e2 where
        pc: "place_categories valid icons rest st1 = (cats2, panels2, st2, e2)"
        by (cases "place_categories valid icons rest st1") auto
      from Cons.prems(2) x \<open>locations cd = Some ls\<close> pl None pc have st': "st' = st2" by simp
      from f1 have ok1: "group_ok st1" by simp
      from Cons.IH [OF ok1 pc] f1 show ?thesis
        unfolding st' by (auto intro: le_trans)
    qed
  qed
qed

lemma group_ok_loadData_call: "group_ok (loadData_call st)"
  by (simp add: group_ok_def loadData_call_def)

lemma loadData_then_fresh:
  assumes "group_ok st"
  shows "\<forall>h \<in> set (markersGroup (loadData_then valid r st)).
           h \<in> set (markersGroup st) \<or> length (markerObjs st) \<le> h"
proof (cases r)
  case (Ok d)
  let ?s0 = "st\<lparr>categories := d\<rparr>"
  obtain cats panels st1 e where
    pc: "place_categories valid (categoryIcons d) d ?s0 = (cats, panels, st1, e)"
    by (cases "place_categories valid (categoryIcons d) d ?s0") auto
  from assms have ok0: "group_ok ?s0" by (simp add: group_ok_def)
  from place_categories_fresh [OF ok0 pc]
  have f: "\<forall>h \<in> set (markersGroup st1). h \<in> set (markersGroup st) \<or> length (markerObjs st) \<le> h"
    by simp
  have "markersGroup (loadData_then valid r st) = markersGroup st1"
    using Ok pc by (cases e) (simp_all add: loadData_then_def loadCategories_def)
  with f show ?thesis by simp
qed (simp_all add: loadData_then_def)

lemma nth_appended:
  "map ((!) (xs @ ys)) [length xs..<length xs + length ys] = ys"
  by (rule nth_equalityI) (simp_all add: nth_append)

lemma loadData_then_valid:
  assumes "placeable valid d"
  shows "markersGroup (loadData_then valid (Ok d) (loadData_call st)) =
           [length (markerObjs st)..<length (markerObjs st) + length (implied_markers d)]
       \<and> markerObjs (loadData_then valid (Ok d) (loadData_call st)) =
           markerObjs st @ implied_markers d
       \<and> console (loadData_then valid (Ok d) (loadData_call st)) = console st"
proof -
  let ?s0 = "(loadData_call st)\<lparr>categories := d\<rparr>"
  have ok0: "group_ok ?s0" by (simp add: group_ok_def loadData_call_def)
  from place_categories_valid [OF assms ok0, of "categoryIcons d"]
  obtain cats panels where
    pc: "place_categories valid (categoryIcons d) d ?s0 =
      (cats, panels,
       ?s0\<lparr>markerObjs := markerObjs ?s0 @ markers_for (categoryIcons d) d,
           markersGroup := markersGroup ?s0
             @ [length (markerObjs ?s0)..<length (markerObjs ?s0)
                  + length (markers_for (categoryIcons d) d)]\<rparr>,
       None)"
    by blast
  show ?thesis
    using pc by (simp add: loadData_then_def loadCategories_def implied_markers_def
        loadData_call_def)
qed

text \<open>
  Claim C5, for a call whose document arrives before any other event is handled. In
  whatever state the call is made (after any number of loads, completed or not, and of
  searches), once its document has arrived every handle in the group was created by
  this load; and when the map library accepts all coordinates of the document and every
  category has its locations, the markers in the group are exactly those the document
  asks for, in its order, each once.
\<close>

theorem reload_sequential:
  "(\<forall>h \<in> set (markersGroup (loadData_then valid (Ok d2) (loadData_call st))).
      length (markerObjs st) \<le> h)
   \<and> (placeable valid d2 \<longrightarrow>
        map ((!) (markerObjs (loadData_then valid (Ok d2) (loadData_call st))))
          (markersGroup (loadData_then valid (Ok d2) (loadData_call st)))
        = implied_markers d2
      \<and> distinct (markersGroup (loadData_then valid (Ok d2) (loadData_call st))))"
proof -
  let ?s2 = "loadData_then valid (Ok d2) (loadData_call st)"
  have a: "\<forall>h \<in> set (markersGroup ?s2). length (markerObjs st) \<le> h"
    using loadData_then_fresh [OF group_ok_loadData_call, of valid "Ok d2" st]
    by (simp add: loadData_call_def)
  have b: "placeable valid d2 \<longrightarrow>
      map ((!) (markerObjs ?s2)) (markersGroup ?s2) = implied_markers d2
      \<and> distinct (markersGroup ?s2)"
  proof
    assume "placeable valid d2"
    from loadData_then_valid [OF this, of st] show
      "map ((!) (markerObjs ?s2)) (markersGroup ?s2) = implied_markers d2
       \<and> distinct (markersGroup ?s2)"
      by (simp add: nth_appended)
  qed
  from a b show ?thesis by blast
qed

lemma parseFloat_digits:
  "parseFloat ''1'' = Num 1" "parseFloat ''2'' = Num 2"
  "parseFloat ''3'' = Num 3" "parseFloat ''4'' = Num 4"
  by code_simp+

lemma placeable_doc_second: "placeable leaflet_valid doc_second"
  by (simp add: placeable_def doc_second_def named_def loc_ex_def leaflet_valid_def isNaN_def
      parseFloat_digits)

lemma implied_doc_second:
  "implied_markers doc_second =
     [\<lparr>m_lat = Num 3, m_lng = Num 4, m_title = Some ''Second'', m_icon = Some ''blue''\<rparr>]"
  by (simp add: implied_markers_def markers_for_def mk_marker_def categoryIcons_def
      doc_second_def named_def loc_ex_def parseFloat_digits)

theorem reload_sequential_witness:
  "placeable leaflet_valid doc_second
   \<and> map ((!) (markerObjs (loadData_then leaflet_valid (Ok doc_second)
            (loadData_call (loadData_then leaflet_valid (Ok doc_first) (loadData_call map_init))))))
        (markersGroup (loadData_then leaflet_valid (Ok doc_second)
            (loadData_call (loadData_then leaflet_valid (Ok doc_first) (loadData_call map_init)))))
      = [\<lparr>m_lat = Num 3, m_lng = Num 4, m_title = Some ''Second'', m_icon = Some ''blue''\<rparr>]"
  using reload_sequential [of leaflet_valid doc_second
      "loadData_then leaflet_valid (Ok doc_first) (loadData_call map_init)"]
    placeable_doc_second implied_doc_second
  by simp

lemma interleaved_state:
  "loadData_then leaflet_valid (Ok doc_second)
     (loadData_then leaflet_valid (Ok doc_first) (loadData_call (loadData_call map_init))) =
   \<lparr>categories =
      [(''Shops'', \<lparr>color = ''blue'',
          locations = Some [(named ''Second'' ''3'' ''4'')\<lparr>marker := Some 1\<rparr>]\<rparr>)],
    markerObjs =
      [\<lparr>m_lat = Num 1, m_lng = Num 2, m_title = Some ''First'', m_icon = Some ''red''\<rparr>,
       \<lparr>m_lat = Num 3, m_lng = Num 4, m_title = Some ''Second'', m_icon = Some ''blue''\<rparr>],
    markersGroup = [0, 1],
    sidebar = [(''Labs'', [Some ''First'']), (''Shops'', [Some ''Second''])],
    console = [], searchDisplay = False, searchResults = []\<rparr>"
  by (simp add: loadData_then_def loadData_call_def map_init_def loadCategories_def
      categoryIcons_def doc_first_def doc_second_def named_def loc_ex_def L_marker_def
      leaflet_valid_def isNaN_def parseFloat_digits addLayer_def)

text \<open>
  When the second call comes while the fetch of the first is still pending, both calls
  clear the group before either document arrives, and the group ends with the markers
  of both documents.
\<close>

theorem reload_interleaved_counterexample:
  "markersGroup (loadData_then leaflet_valid (Ok doc_second)
     (loadData_then leaflet_valid (Ok doc_first) (loadData_call (loadData_call map_init)))) = [0, 1]
   \<and> map ((!) (markerObjs (loadData_then leaflet_valid (Ok doc_second)
          (loadData_then leaflet_valid (Ok doc_first) (loadData_call (loadData_call map_init))))))
        (markersGroup (loadData_then leaflet_valid (Ok doc_second)
          (loadData_then leaflet_valid (Ok doc_first) (loadData_call (loadData_call map_init)))))
      = [\<lparr>m_lat = Num 1, m_lng = Num 2, m_title = Some ''First'', m_icon = Some ''red''\<rparr>,
         \<lparr>m_lat = Num 3, m_lng = Num 4, m_title = Some ''Second'', m_icon = Some ''blue''\<rparr>]
   \<and> map ((!) (markerObjs (loadData_then leaflet_valid (Ok doc_second)
          (loadData_then leaflet_valid (Ok doc_first) (loadData_call (loadData_call map_init))))))
        (markersGroup (loadData_then leaflet_valid (Ok doc_second)
          (loadData_then leaflet_valid (Ok doc_first) (loadData_call (loadData_call map_init)))))
      \<noteq> implied_markers doc_second"
  by (simp add: interleaved_state implied_doc_second)

text \<open>
  A search between the call and the arrival of its document attaches again the markers
  of the document before, which the call had detached: the handler goes through the
  categories, and they are those of the old document until the new one arrives.
\<close>

lemma first_state:
  "loadData_then leaflet_valid (Ok doc_first) (loadData_call map_init) =
   \<lparr>categories =
      [(''Labs'', \<lparr>color = ''red'',
          locations = Some [(named ''First'' ''1'' ''2'')\<lparr>marker := Some 0\<rparr>]\<rparr>)],
    markerObjs =
      [\<lparr>m_lat = Num 1, m_lng = Num 2, m_title = Some ''First'', m_icon = Some ''red''\<rparr>],
    markersGroup = [0],
    sidebar = [(''Labs'', [Some ''First''])],
    console = [], searchDisplay = False, searchResults = []\<rparr>"
  by (simp add: loadData_then_def loadData_call_def map_init_def loadCategories_def
      categoryIcons_def doc_first_def named_def loc_ex_def L_marker_def
      leaflet_valid_def isNaN_def parseFloat_digits addLayer_def)

lemma reload_search_between:
  "markersGroup (search_input isWhiteSpace latin1_lower []
      (loadData_call (loadData_then leaflet_valid (Ok doc_first) (loadData_call map_init)))) = [0]
   \<and> markersGroup (loadData_then leaflet_valid (Ok doc_second)
      (search_input isWhiteSpace latin1_lower []
        (loadData_call (loadData_then leaflet_valid (Ok doc_first) (loadData_call map_init)))))
     = [0, 1]"
  unfolding first_state
  by (simp add: loadData_then_def loadData_call_def loadCategories_def
      categoryIcons_def doc_second_def named_def loc_ex_def L_marker_def
      leaflet_valid_def isNaN_def parseFloat_digits addLayer_def
      search_input_def trim_by_def latin1_lower_def)

text \<open>
  Claim C1, on the document whose first location has \<open>lat = "abc"\<close>: the loader has no
  test of the parsed coordinates. With the map library of the page, which rejects NaN,
  the exception ends the load: no marker is placed, the sibling included, and the
  sidebar stays empty. With a library that accepts every pair, a marker is placed for
  the malformed location, at NaN.
\<close>

theorem load_bad_coordinate:
  "markersGroup (loadData_then leaflet_valid (Ok doc_bad) (loadData_call map_init)) = []
   \<and> sidebar (loadData_then leaflet_valid (Ok doc_bad) (loadData_call map_init)) = []
   \<and> console (loadData_then leaflet_valid (Ok doc_bad) (loadData_call map_init)) =
       [Error ''Invalid LatLng object'']
   \<and> markersGroup (loadData_then (\<lambda>la lo. True) (Ok doc_bad) (loadData_call map_init)) = [0, 1]
   \<and> m_lat (markerObjs (loadData_then (\<lambda>la lo. True) (Ok doc_bad) (loadData_call map_init)) ! 0)
       = NaN
   \<and> m_title (markerObjs (loadData_then (\<lambda>la lo. True) (Ok doc_bad) (loadData_call map_init)) ! 0)
       = Some ''Bad''"
  by (simp add: loadData_then_def loadData_call_def map_init_def loadCategories_def
      categoryIcons_def doc_bad_def named_def loc_ex_def L_marker_def
      leaflet_valid_def isNaN_def parseFloat_digits parseFloat_abc addLayer_def)

subsection \<open>Search\<close>

lemma str_includes_sublist: "str_includes s q = sublist q s"
  by (induction s) (simp_all add: sublist_Cons_right)

lemma prefix_take: "prefix q s = (take (length q) s = q)"
proof
  assume "prefix q s"
  then obtain r where "s = q @ r" by (auto simp: prefix_def)
  then show "take (length q) s = q" by simp
next
  assume "take (length q) s = q"
  then have "s = q @ drop (length q) s" by (metis append_take_drop_id)
  then show "prefix q s" by (metis prefixI)
qed

lemma sublist_le:
  "sublist q s = (\<exists>i \<le> length s. take (length q) (drop i s) = q)"
proof (induction s)
  case Nil
  show ?case by auto
next
  case (Cons c s)
  have "(\<exists>i \<le> length (c # s). take (length q) (drop i (c # s)) = q)
      = (take (length q) (c # s) = q \<or> (\<exists>i \<le> length s. take (length q) (drop i s) = q))"
  proof
    assume "\<exists>i \<le> length (c # s). take (length q) (drop i (c # s)) = q"
    then obtain i where i: "i \<le> length (c # s)" "take (length q) (drop i (c # s)) = q"
      by blast
    show "take (length q) (c # s) = q \<or> (\<exists>i \<le> length s. take (length q) (drop i s) = q)"
    proof (cases i)
      case 0
      with i show ?thesis by simp
    next
      case (Suc j)
      with i have "j \<le> length s" "take (length q) (drop j s) = q" by simp_all
      then show ?thesis by blast
    qed
  next
    assume "take (length q) (c # s) = q \<or> (\<exists>i \<le> length s. take (length q) (drop i s) = q)"
    then show "\<exists>i \<le> length (c # s). take (length q) (drop i (c # s)) = q"
    proof
      assume "take (length q) (c # s) = q"
      then have "0 \<le> length (c # s) \<and> take (length q) (drop 0 (c # s)) = q" by simp
      then show ?thesis by blast
    next
      assume "\<exists>i \<le> length s. take (length q) (drop i s) = q"
      then obtain j where "j \<le> length s" "take (length q) (drop j s) = q" by blast
      then have "Suc j \<le> length (c # s) \<and> take (length q) (drop (Suc j) (c # s)) = q"
        by simp
      then show ?thesis by blast
    qed
  qed
  with Cons.IH prefix_take [of q "c # s"] show ?case by (simp add: sublist_Cons_right)
qed

lemma ci_contains_le:
  "ci_contains lower s q = (\<exists>i \<le> length s. lower (take (length q) (drop i s)) = lower q)"
proof -
  have "(i \<in> set [0..<Suc (length s)]) = (i \<le> length s)" for i
    by (simp add: less_Suc_eq_le del: upt_Suc)
  then show ?thesis
    unfolding ci_contains_def by blast
qed

lemma sublist_lower_iff:
  assumes "\<forall>s. lower s = map f s"
  shows "sublist (lower q) (lower s) = ci_contains lower s q"
  using assms by (simp add: sublist_le ci_contains_le take_map drop_map)

lemma lowered_match_spec:
  assumes "\<forall>s. lower s = map f s"
  shows "lowered_match lower q l = spec_match lower q l"
  using sublist_lower_iff [OF assms]
  by (simp add: lowered_match_def spec_match_def split: option.splits)

lemma trim_by_Nil_iff: "(trim_by ws v = []) = (\<forall>c \<in> set v. ws c)"
proof -
  have a: "(trim_by ws v = []) = (\<forall>c \<in> set (dropWhile ws v). ws c)"
    unfolding trim_by_def by (simp only: rev_is_Nil_conv dropWhile_eq_Nil_conv set_rev)
  have b: "(\<forall>c \<in> set (dropWhile ws v). ws c) = (dropWhile ws v = [])"
  proof (cases "dropWhile ws v")
    case Nil
    then show ?thesis by (simp del: dropWhile_eq_Nil_conv)
  next
    case (Cons a r)
    then have "\<not> ws a" using hd_dropWhile [of ws v] by (simp del: dropWhile_eq_Nil_conv)
    with Cons show ?thesis by (auto simp del: dropWhile_eq_Nil_conv)
  qed
  have c: "(dropWhile ws v = []) = (\<forall>c \<in> set v. ws c)"
    by (rule dropWhile_eq_Nil_conv)
  from a b c show ?thesis by (simp only:)
qed

lemma trim_by_isWhiteSpace: "trim_by isWhiteSpace s = trim s"
  by (simp add: trim_by_def trim_def trimEnd_def trimStart_def)

lemma collect_locations_eq:
  "collect_locations lower query c ls ms =
     ms @ map (mk_match lower query c) (filter (code_match lower query) ls)"
  by (induction ls arbitrary: ms) (simp_all add: code_match_def mk_match_def)

lemma collect_matches_eq:
  "collect_matches lower query d ms =
     ms @ concat (map (\<lambda>(c, cd). case locations cd of None \<Rightarrow> []
          | Some ls \<Rightarrow> map (mk_match lower query c) (filter (code_match lower query) ls)) d)"
proof (induction d arbitrary: ms)
  case Nil
  show ?case by simp
next
  case (Cons x d)
  obtain c cd where x: "x = (c, cd)" by (cases x)
  show ?case
    unfolding x
    by (cases "locations cd") (simp_all add: Cons.IH collect_locations_eq)
qed

lemma locations_of_matches:
  "map m_location (computeMatches lower query d) =
     filter (code_match lower query) (all_locations d)"
proof -
  have "map m_location (concat (map (\<lambda>(c, cd). case locations cd of None \<Rightarrow> []
          | Some ls \<Rightarrow> map (mk_match lower query c) (filter (code_match lower query) ls)) d))
      = filter (code_match lower query) (all_locations d)"
  proof (induction d)
    case Nil
    show ?case by (simp add: all_locations_def)
  next
    case (Cons x d)
    obtain c cd where x: "x = (c, cd)" by (cases x)
    have m: "map (m_location \<circ> mk_match lower query c) ls = ls" for ls
      by (induction ls) (simp_all add: mk_match_def)
    from Cons.IH show ?case
      unfolding x
      by (cases "locations cd") (simp_all add: all_locations_def m)
  qed
  then show ?thesis
    by (simp add: computeMatches_def collect_matches_eq)
qed

lemma code_match_lowered:
  assumes "lower [] = []" and "lower q \<noteq> []"
  shows "code_match lower (lower q) l = lowered_match lower q l"
proof -
  have e: "\<not> sublist (lower q) []"
    using assms by simp
  have n: "nameMatches lower (lower q) l =
      (case name l of None \<Rightarrow> False | Some n \<Rightarrow> sublist (lower q) (lower n))"
    using assms e
    by (auto simp: nameMatches_def str_includes_sublist split: option.splits)
  have r: "relatedItemMatches lower (lower q) l =
      (case relatedItems l of None \<Rightarrow> False
       | Some items \<Rightarrow> \<exists>item \<in> set items. sublist (lower q) (lower item))"
    by (auto simp: relatedItemMatches_def matchingRelatedItems_def str_includes_sublist
        filter_empty_conv split: option.splits)
  from n r show ?thesis
    by (simp add: code_match_def lowered_match_def)
qed

lemma matched_items:
  assumes "m \<in> set (computeMatches lower query d)"
  shows "matchedRelatedItems m =
     (case relatedItems (m_location m) of None \<Rightarrow> []
      | Some items \<Rightarrow> filter (\<lambda>item. sublist query (lower item)) items)"
proof -
  from assms obtain c l where "m = mk_match lower query c l"
    by (auto simp: computeMatches_def collect_matches_eq split: option.splits)
  then show ?thesis
    by (simp add: mk_match_def matchingRelatedItems_def str_includes_sublist
        split: option.splits)
qed

lemma set_addLayer: "set (addLayer h g) = insert h (set g)"
  by (auto simp: addLayer_def)

lemma set_removeLayer: "set (removeLayer h g) = set g - {h}"
  by (auto simp: removeLayer_def)

lemma set_add_markers:
  "set (foldl (\<lambda>g l. case marker l of None \<Rightarrow> g | Some h \<Rightarrow> addLayer h g) g ls) =
     set g \<union> {h. \<exists>l \<in> set ls. marker l = Some h}"
  by (induction ls arbitrary: g) (auto simp: set_addLayer split: option.splits)

lemma set_remove_markers:
  "set (foldl (\<lambda>g l. case marker l of None \<Rightarrow> g | Some h \<Rightarrow> removeLayer h g) g ls) =
     set g - {h. \<exists>l \<in> set ls. marker l = Some h}"
  by (induction ls arbitrary: g) (auto simp: set_removeLayer split: option.splits)

lemma set_show_all:
  "set (show_all d g) = set g \<union> {h. \<exists>l \<in> set (all_locations d). marker l = Some h}"
proof (induction d arbitrary: g)
  case Nil
  show ?case by (simp add: all_locations_def)
next
  case (Cons x d)
  obtain c cd where x: "x = (c, cd)" by (cases x)
  show ?case
  proof (cases "locations cd")
    case None
    with Cons.IH [of g] x show ?thesis by (simp add: all_locations_def)
  next
    case (Some ls)
    have "all_locations (x # d) = ls @ all_locations d"
      using x Some by (simp add: all_locations_def)
    with Cons.IH x Some show ?thesis
      by (auto simp: set_add_markers)
  qed
qed

lemma set_hide_all:
  "set (hide_all d g) = set g - {h. \<exists>l \<in> set (all_locations d). marker l = Some h}"
proof (induction d arbitrary: g)
  case Nil
  show ?case by (simp add: all_locations_def)
next
  case (Cons x d)
  obtain c cd where x: "x = (c, cd)" by (cases x)
  show ?case
  proof (cases "locations cd")
    case None
    with Cons.IH [of g] x show ?thesis by (simp add: all_locations_def)
  next
    case (Some ls)
    have "all_locations (x # d) = ls @ all_locations d"
      using x Some by (simp add: all_locations_def)
    with Cons.IH x Some show ?thesis
      by (auto simp: set_remove_markers)
  qed
qed

lemma set_show_matches:
  "set (show_matches ms g) = set g \<union> {h. \<exists>l \<in> set (map m_location ms). marker l = Some h}"
  unfolding show_matches_def
  by (induction ms arbitrary: g) (auto simp: set_addLayer split: option.splits)

lemma search_input_empty:
  assumes "lower (trim_by ws v) = []"
  shows "search_input ws lower v st =
     st\<lparr>searchResults := [], searchDisplay := False,
        markersGroup := show_all (categories st) (markersGroup st)\<rparr>"
  using assms by (simp add: search_input_def)

lemma search_input_query:
  assumes "lower (trim_by ws v) \<noteq> []"
  shows "searchResults (search_input ws lower v st) =
           take 25 (computeMatches lower (lower (trim_by ws v)) (categories st))
       \<and> searchDisplay (search_input ws lower v st) =
           (computeMatches lower (lower (trim_by ws v)) (categories st) \<noteq> [])
       \<and> markersGroup (search_input ws lower v st) =
           show_matches (computeMatches lower (lower (trim_by ws v)) (categories st))
             (hide_all (categories st) (markersGroup st))
       \<and> categories (search_input ws lower v st) = categories st"
  using assms by (simp add: search_input_def Let_def)

lemma visible_empty:
  assumes "lower (trim_by ws v) = []"
  shows "visible (search_input ws lower v st) =
     filter (\<lambda>l. marker l \<noteq> None) (all_locations (categories st))"
  unfolding visible_def
  using search_input_empty [of lower ws v st] assms
  by (intro filter_cong) (auto simp: set_show_all split: option.splits)

lemma visible_query:
  assumes "lower (trim_by ws v) \<noteq> []"
  shows "visible (search_input ws lower v st) =
     filter (\<lambda>l. marker l \<noteq> None
         \<and> (\<exists>k \<in> set (map m_location
               (computeMatches lower (lower (trim_by ws v)) (categories st))).
              marker k = marker l))
       (all_locations (categories st))"
  unfolding visible_def
  using search_input_query [of lower ws v st] assms
  by (intro filter_cong) (auto simp: set_show_matches set_hide_all split: option.splits)


text \<open>
  Claim C3, with the query trimmed and the comparison made on the lower-cased texts.
  \<open>lower\<close> is \<^verbatim>\<open>toLowerCase\<close>, of which the proof uses only that it makes no
  non-empty text empty. When the value of the field is empty or white space, the handler
  hides the panel, lists no result, and shows every location that has a marker.
  Otherwise the matches are, in document order, exactly the locations whose lower-cased
  name or some lower-cased related item contains the lower-cased trimmed value; each
  match reports the related items that contain it; the panel lists the first 25 matches
  and is shown when there is one; and a location is shown exactly when it has a marker
  that a matching location owns. Where lower-casing acts letter by letter, such a
  location is one whose name or related item contains the trimmed value as a
  case-insensitive substring.
\<close>

theorem search_matches_lowered:
  assumes "\<forall>s. (lower s = []) = (s = [])"
  shows
  "((\<forall>c \<in> set v. ws c) \<longrightarrow>
      searchDisplay (search_input ws lower v st) = False
    \<and> searchResults (search_input ws lower v st) = []
    \<and> visible (search_input ws lower v st) =
        filter (\<lambda>l. marker l \<noteq> None) (all_locations (categories st)))
   \<and> ((\<exists>c \<in> set v. \<not> ws c) \<longrightarrow>
      map m_location (computeMatches lower (lower (trim_by ws v)) (categories st)) =
        filter (lowered_match lower (trim_by ws v)) (all_locations (categories st))
    \<and> (\<forall>m \<in> set (computeMatches lower (lower (trim_by ws v)) (categories st)).
          matchedRelatedItems m =
            (case relatedItems (m_location m) of None \<Rightarrow> []
             | Some items \<Rightarrow>
                 filter (\<lambda>item. sublist (lower (trim_by ws v)) (lower item)) items))
    \<and> searchResults (search_input ws lower v st) =
        take 25 (computeMatches lower (lower (trim_by ws v)) (categories st))
    \<and> searchDisplay (search_input ws lower v st) =
        (computeMatches lower (lower (trim_by ws v)) (categories st) \<noteq> [])
    \<and> visible (search_input ws lower v st) =
        filter (\<lambda>l. marker l \<noteq> None
            \<and> (\<exists>k \<in> set (all_locations (categories st)).
                  lowered_match lower (trim_by ws v) k \<and> marker k = marker l))
          (all_locations (categories st)))
   \<and> ((\<forall>s. lower s = map f s) \<longrightarrow>
      lowered_match lower (trim_by ws v) l = spec_match lower (trim_by ws v) l
    \<and> sublist (lower (trim_by ws v)) (lower t) = ci_contains lower t (trim_by ws v))"
proof (intro conjI impI)
  assume "\<forall>c \<in> set v. ws c"
  then have e: "lower (trim_by ws v) = []"
    using assms by (simp add: trim_by_Nil_iff)
  show "searchDisplay (search_input ws lower v st) = False"
    using search_input_empty [of lower ws v st] e by simp
  show "searchResults (search_input ws lower v st) = []"
    using search_input_empty [of lower ws v st] e by simp
  show "visible (search_input ws lower v st) =
        filter (\<lambda>l. marker l \<noteq> None) (all_locations (categories st))"
    using visible_empty [of lower ws v st] e by simp
next
  assume "\<exists>c \<in> set v. \<not> ws c"
  then have "trim_by ws v \<noteq> []"
    by (simp add: trim_by_Nil_iff)
  then have n: "lower (trim_by ws v) \<noteq> []"
    using assms by simp
  have z: "lower [] = []"
    using assms by simp
  let ?ms = "computeMatches lower (lower (trim_by ws v)) (categories st)"
  have f: "code_match lower (lower (trim_by ws v)) = lowered_match lower (trim_by ws v)"
    using code_match_lowered [OF z n] by (rule ext)
  show locs: "map m_location ?ms =
      filter (lowered_match lower (trim_by ws v)) (all_locations (categories st))"
    by (simp add: locations_of_matches f)
  show "\<forall>m \<in> set ?ms. matchedRelatedItems m =
            (case relatedItems (m_location m) of None \<Rightarrow> []
             | Some items \<Rightarrow>
                 filter (\<lambda>item. sublist (lower (trim_by ws v)) (lower item)) items)"
    using matched_items by blast
  show "searchResults (search_input ws lower v st) = take 25 ?ms"
    using search_input_query [of lower ws v st] n by simp
  show "searchDisplay (search_input ws lower v st) = (?ms \<noteq> [])"
    using search_input_query [of lower ws v st] n by simp
  have "visible (search_input ws lower v st) =
      filter (\<lambda>l. marker l \<noteq> None \<and> (\<exists>k \<in> set (map m_location ?ms). marker k = marker l))
        (all_locations (categories st))"
    using visible_query [of lower ws v st] n by simp
  also have "\<dots> = filter (\<lambda>l. marker l \<noteq> None
            \<and> (\<exists>k \<in> set (all_locations (categories st)).
                  lowered_match lower (trim_by ws v) k \<and> marker k = marker l))
          (all_locations (categories st))"
    unfolding locs by (intro filter_cong) auto
  finally show "visible (search_input ws lower v st) =
        filter (\<lambda>l. marker l \<noteq> None
            \<and> (\<exists>k \<in> set (all_locations (categories st)).
                  lowered_match lower (trim_by ws v) k \<and> marker k = marker l))
          (all_locations (categories st))" .
next
  assume m: "\<forall>s. lower s = map f s"
  show "lowered_match lower (trim_by ws v) l = spec_match lower (trim_by ws v) l"
    using lowered_match_spec [OF m] .
  show "sublist (lower (trim_by ws v)) (lower t) = ci_contains lower t (trim_by ws v)"
    using sublist_lower_iff [OF m] .
qed

lemma trim_examples:
  "trim_by isWhiteSpace ''lab 1 '' = ''lab 1''" "trim_by isWhiteSpace '' THERM'' = ''THERM''"
  "trim_by isWhiteSpace [] = []"
  by code_simp+

lemma ws_examples:
  "\<forall>c \<in> set ''   ''. isWhiteSpace c" "\<exists>c \<in> set '' THERM''. \<not> isWhiteSpace c"
  by code_simp+

lemma latin1_lower_Nil: "\<forall>s. (latin1_lower s = []) = (s = [])"
  by (simp add: latin1_lower_def)

lemma latin1_lower_map: "\<forall>s. latin1_lower s = map toLowerChar s"
  by (simp add: latin1_lower_def)

lemma lab_query: "searchResults (search_input isWhiteSpace latin1_lower ''lab 1 '' st_lab) =
    [\<lparr>m_location = lab, m_category = ''Labs'', matchedRelatedItems = []\<rparr>]"
  by code_simp

lemma lab_not_raw: "\<not> spec_match latin1_lower ''lab 1 '' lab"
  by code_simp

lemma lab_empty:
  "searchResults (search_input isWhiteSpace latin1_lower [] st_lab) = []"
  "all_locations (categories st_lab) = [lab]"
  by code_simp+

lemma bad_categories:
  "categories (loadData_then leaflet_valid (Ok doc_bad) (loadData_call map_init)) = doc_bad"
  by (simp add: loadData_then_def loadData_call_def map_init_def loadCategories_def
      categoryIcons_def doc_bad_def named_def loc_ex_def L_marker_def
      leaflet_valid_def isNaN_def parseFloat_digits parseFloat_abc addLayer_def)

lemma bad_empty:
  "visible (search_input isWhiteSpace latin1_lower []
      (loadData_then leaflet_valid (Ok doc_bad) (loadData_call map_init))) = []"
proof -
  have "latin1_lower (trim_by isWhiteSpace []) = []"
    by (simp add: trim_examples latin1_lower_def)
  then have "visible (search_input isWhiteSpace latin1_lower []
      (loadData_then leaflet_valid (Ok doc_bad) (loadData_call map_init))) =
      filter (\<lambda>l. marker l \<noteq> None) (all_locations doc_bad)"
    using visible_empty [of latin1_lower isWhiteSpace "[]"
      "loadData_then leaflet_valid (Ok doc_bad) (loadData_call map_init)"]
    by (simp only: bad_categories)
  then show ?thesis
    by (simp add: all_locations_def doc_bad_def named_def loc_ex_def)
qed

lemma odos_query:
  "searchResults (search_input (\<lambda>c. False) lower_greek [Cap_Sigma] st_odos) = []"
  "visible (search_input (\<lambda>c. False) lower_greek [Cap_Sigma] st_odos) = []"
  "spec_match lower_greek [Cap_Sigma] odos"
  "lower_greek [Cap_Omicron, Cap_Delta, Cap_Omicron, Cap_Sigma] =
     [Small_Omicron, Small_Delta, Small_Omicron, Final_Sigma]"
  "lower_greek [Cap_Sigma] = [Small_Sigma]"
  by code_simp+

text \<open>
  With the value \<open>"lab 1 "\<close> in the field, the handler searches for \<open>"lab 1"\<close> and
  lists the location named \<open>"Meth Lab 1"\<close>, whose name does not contain the value of
  the field. With the empty value it lists no result, though the document has a
  location; and after the load of a document that was ended by a malformed coordinate,
  the locations have no marker and the empty value shows none of them. With the value
  capital sigma, the location whose name is the capital word ending with a sigma is
  neither listed nor shown, though the letter is in the name: the lower-cased name ends
  with the final sigma, which the lower-cased query is not.
\<close>

theorem search_query_counterexample:
  "map m_location (searchResults (search_input isWhiteSpace latin1_lower ''lab 1 '' st_lab)) = [lab]
   \<and> \<not> spec_match latin1_lower ''lab 1 '' lab
   \<and> all_locations (categories st_lab) = [lab]
   \<and> searchResults (search_input isWhiteSpace latin1_lower [] st_lab) = []
   \<and> map name (all_locations (categories
        (loadData_then leaflet_valid (Ok doc_bad) (loadData_call map_init)))) =
       [Some ''Bad'', Some ''Good'']
   \<and> visible (search_input isWhiteSpace latin1_lower []
        (loadData_then leaflet_valid (Ok doc_bad) (loadData_call map_init))) = []
   \<and> name odos = Some [Cap_Omicron, Cap_Delta, Cap_Omicron, Cap_Sigma]
   \<and> spec_match lower_greek [Cap_Sigma] odos
   \<and> all_locations (categories st_odos) = [odos]
   \<and> searchResults (search_input (\<lambda>c. False) lower_greek [Cap_Sigma] st_odos) = []
   \<and> visible (search_input (\<lambda>c. False) lower_greek [Cap_Sigma] st_odos) = []"
proof -
  have "map name (all_locations (categories
        (loadData_then leaflet_valid (Ok doc_bad) (loadData_call map_init)))) =
       [Some ''Bad'', Some ''Good'']"
    unfolding bad_categories
    by (simp add: all_locations_def doc_bad_def named_def loc_ex_def)
  moreover have "name odos = Some [Cap_Omicron, Cap_Delta, Cap_Omicron, Cap_Sigma]"
    by (simp add: odos_def)
  moreover have "all_locations (categories st_odos) = [odos]"
    by (simp add: st_odos_def all_locations_def)
  ultimately show ?thesis
    using lab_not_raw
    by (simp add: lab_query lab_empty bad_empty odos_query)
qed

theorem search_matches_lowered_witness:
  "searchDisplay (search_input isWhiteSpace latin1_lower ''   '' st_lab) = False
   \<and> visible (search_input isWhiteSpace latin1_lower ''   '' st_lab) = [lab]
   \<and> map m_location (computeMatches latin1_lower (latin1_lower (trim_by isWhiteSpace '' THERM''))
        (categories st_lab)) = [lab]
   \<and> map matchedRelatedItems
        (computeMatches latin1_lower (latin1_lower (trim_by isWhiteSpace '' THERM''))
          (categories st_lab)) = [[''Thermite'']]
   \<and> spec_match latin1_lower (trim_by isWhiteSpace '' THERM'') lab"
proof -
  let ?q = "trim_by isWhiteSpace '' THERM''"
  let ?ms = "computeMatches latin1_lower (latin1_lower ?q) (categories st_lab)"
  note thm1 = search_matches_lowered [OF latin1_lower_Nil, of "''   ''" isWhiteSpace st_lab
      toLowerChar lab "[]"]
  note thm2 = search_matches_lowered [OF latin1_lower_Nil, of "'' THERM''" isWhiteSpace st_lab
      toLowerChar lab "[]"]
  have al: "filter (\<lambda>l. marker l \<noteq> None) (all_locations (categories st_lab)) = [lab]"
    by (simp add: st_lab_def doc_lab_def all_locations_def map_init_def lab_def)
  have f: "filter (lowered_match latin1_lower ''THERM'') (all_locations (categories st_lab)) = [lab]"
    by code_simp
  have i: "(case relatedItems lab of None \<Rightarrow> []
      | Some items \<Rightarrow> filter (\<lambda>item. sublist (latin1_lower ?q) (latin1_lower item)) items)
      = [''Thermite'']"
    by code_simp
  from thm1 ws_examples(1) al
  have a: "searchDisplay (search_input isWhiteSpace latin1_lower ''   '' st_lab) = False
      \<and> visible (search_input isWhiteSpace latin1_lower ''   '' st_lab) = [lab]"
    by simp
  from thm2 ws_examples(2)
  have b: "map m_location ?ms = filter (lowered_match latin1_lower ?q) (all_locations (categories st_lab))"
    and c: "\<forall>m \<in> set ?ms. matchedRelatedItems m =
            (case relatedItems (m_location m) of None \<Rightarrow> []
             | Some items \<Rightarrow> filter (\<lambda>item. sublist (latin1_lower ?q) (latin1_lower item)) items)"
    by blast+
  from thm2 latin1_lower_map
  have d: "lowered_match latin1_lower ?q lab = spec_match latin1_lower ?q lab"
    by blast
  from b f have b': "map m_location ?ms = [lab]"
    by (simp add: trim_examples)
  have c': "\<forall>m \<in> set ?ms. matchedRelatedItems m = [''Thermite'']"
  proof
    fix m
    assume m: "m \<in> set ?ms"
    then have "m_location m \<in> set (map m_location ?ms)"
      by simp
    with b' have "m_location m = lab" by simp
    with c m i show "matchedRelatedItems m = [''Thermite'']"
      by simp
  qed
  from b' obtain m where ms: "?ms = [m]"
    by (cases ?ms) auto
  with c' have e: "map matchedRelatedItems ?ms = [[''Thermite'']]"
    by simp
  from b b' have "set (filter (lowered_match latin1_lower ?q)
      (all_locations (categories st_lab))) = {lab}"
    by (metis list.simps(15) empty_set)
  then have "lowered_match latin1_lower ?q lab"
    by auto
  with d have g: "spec_match latin1_lower ?q lab"
    by simp
  from a b' e g show ?thesis by blast
qed

subsection \<open>Committing a draft\<close>

text \<open>
  Claim C4, at a commit whose write to the clipboard fails. Where the clipboard exists
  and the write is rejected, the handler has by then bound the confirmation to the popup
  and scheduled the removal: the alert is shown and the marker is still on the map, and
  when the timer fires, or the popup is closed, the marker is off the map with nothing
  on the clipboard. Where \<^verbatim>\<open>navigator.clipboard\<close> does not exist, the handler ends
  with the exception: no change at all, so no alert, no confirmation and no timer.
\<close>

theorem commit_write_failure:
  "copy_click True (\<lambda>x. []) 1700000000000 (1, 2) form_ex draft_open =
     Inr (draft_open\<lparr>pendingWrites := [build_markerData (\<lambda>x. []) 1700000000000 (1, 2) form_ex],
            copiedShown := True, removals := [1500]\<rparr>)
   \<and> alerts (clipboard_settled False
        (draft_open\<lparr>pendingWrites := [build_markerData (\<lambda>x. []) 1700000000000 (1, 2) form_ex],
            copiedShown := True, removals := [1500]\<rparr>)) =
       [''Copying to clipboard failed. Ensure you are using HTTPS or localhost.'']
   \<and> removal_fired (clipboard_settled False
        (draft_open\<lparr>pendingWrites := [build_markerData (\<lambda>x. []) 1700000000000 (1, 2) form_ex],
            copiedShown := True, removals := [1500]\<rparr>)) =
       \<lparr>onMap = False, copiedShown = True, pendingWrites = [], clipboard = None,
        alerts = [''Copying to clipboard failed. Ensure you are using HTTPS or localhost.''],
        consoleLog = [''Failed to copy text to clipboard:''], removals = []\<rparr>
   \<and> onMap (clipboard_settled False
        (draft_open\<lparr>pendingWrites := [build_markerData (\<lambda>x. []) 1700000000000 (1, 2) form_ex],
            copiedShown := True, removals := [1500]\<rparr>))
   \<and> \<not> onMap (popupclose (clipboard_settled False
        (draft_open\<lparr>pendingWrites := [build_markerData (\<lambda>x. []) 1700000000000 (1, 2) form_ex],
            copiedShown := True, removals := [1500]\<rparr>)))
   \<and> copy_click False (\<lambda>x. []) 1700000000000 (1, 2) form_ex draft_open =
       Inl (TypeError ''navigator.clipboard is undefined'')"
  by (simp add: copy_click_def copyToClipboard_def clipboard_settled_def removal_fired_def
      popupclose_def draft_open_def)

subsection \<open>The exported record\<close>

lemma digitChar_digit:
  assumes "0 \<le> d" and "d < 10"
  shows "isDigit (digitChar d) \<and> digitVal (digitChar d) = d"
proof -
  from assms have "d = 0 \<or> d = 1 \<or> d = 2 \<or> d = 3 \<or> d = 4 \<or> d = 5 \<or> d = 6 \<or> d = 7
      \<or> d = 8 \<or> d = 9" by arith
  then show ?thesis
    by (elim disjE) (simp_all add: digitChar_def isDigit_def digitVal_def)
qed

lemma digitsVal_snoc: "digitsVal (ds @ [c]) = 10 * digitsVal ds + digitVal c"
  by (simp add: digitsVal_def)

lemma digits_of_ok:
  "0 \<le> n \<Longrightarrow>
     digits_of n \<noteq> [] \<and> (\<forall>c \<in> set (digits_of n). isDigit c) \<and> digitsVal (digits_of n) = n"
proof (induction n rule: digits_of.induct)
  case (1 n)
  show ?case
  proof (cases "n < 10")
    case True
    with "1.prems" digitChar_digit [of n] show ?thesis
      by (simp add: digits_of.simps [of n] digitsVal_def)
  next
    case False
    with "1.prems" have "0 \<le> n div 10" by simp
    with "1.IH" False have ih: "digits_of (n div 10) \<noteq> []"
      "\<forall>c \<in> set (digits_of (n div 10)). isDigit c"
      "digitsVal (digits_of (n div 10)) = n div 10" by simp_all
    have "0 \<le> n mod 10" "n mod 10 < 10" by simp_all
    from digitChar_digit [OF this] ih False show ?thesis
      by (simp add: digits_of.simps [of n] digitsVal_snoc)
  qed
qed

lemma digitsVal_zeros: "digitsVal (replicate k CHR ''0'' @ ds) = digitsVal ds"
proof -
  have "foldl (\<lambda>a c. 10 * a + digitVal c) 0 (replicate k CHR ''0'') = 0"
    by (induction k) (simp_all add: digitVal_def)
  then show ?thesis by (simp add: digitsVal_def)
qed

lemma isDigit_zero: "isDigit CHR ''0''"
  by (simp add: isDigit_def)

lemma nearest_int: "\<bar>of_int \<lfloor>y + 1 / 2\<rfloor> - y\<bar> \<le> (1 / 2 :: rat)"
proof -
  define r :: rat where "r = of_int \<lfloor>y + 1 / 2\<rfloor>"
  have a: "r \<le> y + 1 / 2"
    unfolding r_def by (rule of_int_floor_le)
  have "y + 1 / 2 < of_int (\<lfloor>y + 1 / 2\<rfloor> + 1)"
    using floor_correct [of "y + 1 / 2"] by blast
  then have b: "y + 1 / 2 < r + 1"
    unfolding r_def by simp
  from a b have "\<bar>r - y\<bar> \<le> 1 / 2" by linarith
  then show ?thesis unfolding r_def .
qed

lemma toFixed6_unfold:
  assumes "\<bar>x\<bar> < 10 ^ 21"
    and "z = (if length (digits_of \<lfloor>\<bar>x\<bar> * 10 ^ 6 + 1 / 2\<rfloor>) \<le> 6
              then replicate (7 - length (digits_of \<lfloor>\<bar>x\<bar> * 10 ^ 6 + 1 / 2\<rfloor>)) CHR ''0''
                     @ digits_of \<lfloor>\<bar>x\<bar> * 10 ^ 6 + 1 / 2\<rfloor>
              else digits_of \<lfloor>\<bar>x\<bar> * 10 ^ 6 + 1 / 2\<rfloor>)"
  shows "toFixed6 ts x =
     (if x < 0 then ''-'' else []) @ take (length z - 6) z @ ''.'' @ drop (length z - 6) z"
proof -
  from assms(1) have "\<not> 10 ^ 21 \<le> \<bar>x\<bar>" by simp
  then show ?thesis
    unfolding toFixed6_def Let_def assms(2) by (simp only: if_False)
qed

lemma toFixed6_shape:
  assumes "\<bar>x\<bar> < 10 ^ 21"
  shows "\<exists>ip fp. toFixed6 ts x = (if x < 0 then ''-'' else []) @ ip @ ''.'' @ fp
      \<and> ip \<noteq> [] \<and> length fp = 6 \<and> (\<forall>c \<in> set (ip @ fp). isDigit c)
      \<and> \<bar>of_int (digitsVal (ip @ fp)) / 10 ^ 6 - \<bar>x\<bar>\<bar> \<le> 1 / (2 * 10 ^ 6)"
proof -
  define n where "n = \<lfloor>\<bar>x\<bar> * 10 ^ 6 + 1 / 2\<rfloor>"
  define m where "m = digits_of n"
  define z where "z = (if length m \<le> 6 then replicate (7 - length m) CHR ''0'' @ m else m)"
  define k where "k = length z"
  have n0: "0 \<le> n" by (simp add: n_def)
  from digits_of_ok [OF n0] have d: "\<forall>c \<in> set m. isDigit c" "digitsVal m = n"
    by (simp_all add: m_def)
  have len: "7 \<le> k" by (simp add: k_def z_def)
  have dz: "\<forall>c \<in> set z. isDigit c"
    using d(1) isDigit_zero by (auto simp: z_def)
  have vz: "digitsVal z = n"
    using d(2) by (simp add: z_def digitsVal_zeros)
  have split: "take (k - 6) z @ drop (k - 6) z = z" by (rule append_take_drop_id)
  have tf: "toFixed6 ts x = (if x < 0 then ''-'' else []) @ take (k - 6) z @ ''.'' @ drop (k - 6) z"
    unfolding k_def
    by (rule toFixed6_unfold [OF assms]) (simp add: z_def m_def n_def)
  have "length (take (k - 6) z) = k - 6" by (simp add: k_def)
  with len have ip: "take (k - 6) z \<noteq> []" by auto
  have fp: "length (drop (k - 6) z) = 6" using len by (simp add: k_def)
  have dig: "\<forall>c \<in> set (take (k - 6) z @ drop (k - 6) z). isDigit c"
    unfolding split using dz .
  have "\<bar>of_int n - \<bar>x\<bar> * 10 ^ 6\<bar> \<le> (1 / 2 :: rat)"
    unfolding n_def by (rule nearest_int)
  then have "\<bar>of_int n - \<bar>x\<bar> * 10 ^ 6\<bar> / 10 ^ 6 \<le> (1 / 2 :: rat) / 10 ^ 6"
    by (rule divide_right_mono) simp
  moreover have "\<bar>of_int n - \<bar>x\<bar> * 10 ^ 6\<bar> / 10 ^ 6 = \<bar>of_int n / 10 ^ 6 - \<bar>x\<bar>\<bar>"
  proof -
    have "of_int n / 10 ^ 6 - \<bar>x\<bar> = (of_int n - \<bar>x\<bar> * 10 ^ 6) / (10 ^ 6 :: rat)"
      by (simp add: diff_divide_distrib)
    then show ?thesis by (simp only: abs_divide) simp
  qed
  ultimately have acc: "\<bar>of_int n / 10 ^ 6 - \<bar>x\<bar>\<bar> \<le> 1 / (2 * 10 ^ 6 :: rat)"
    by simp
  have val: "\<bar>of_int (digitsVal (take (k - 6) z @ drop (k - 6) z)) / 10 ^ 6 - \<bar>x\<bar>\<bar>
      \<le> 1 / (2 * 10 ^ 6 :: rat)"
    unfolding split vz using acc .
  from tf ip fp dig val show ?thesis by blast
qed

lemma collect_items_eq:
  "collect_items rows acc = acc @ filter (\<lambda>n. n \<noteq> []) (map (\<lambda>r. trim (fst r)) rows)"
  by (induction rows acc rule: collect_items.induct) (simp_all add: Let_def)

text \<open>
  Claim C7, with the id as the code makes it. The record that the copy handler builds
  and hands to the clipboard has the value of \<^verbatim>\<open>Date.now()\<close> as its id, a number
  whose decimal text is not empty; two records have the same id exactly when they were
  built at the same clock value. \<open>lat\<close> and \<open>lng\<close> are the sign, at least one digit,
  the point and exactly six digits, and denote the coordinate of the point to within
  half a unit of the sixth place (for coordinates below \<open>10^21\<close> in magnitude, where
  \<^verbatim>\<open>toFixed\<close> uses the fixed notation); the name is the entered name, or
  \<open>New Location\<close> when the field is empty; and \<open>relatedItems\<close> holds, in row order, the
  trimmed names of exactly the rows whose trimmed name is not empty, the descriptions
  left out.
\<close>

theorem export_record:
  "md_id (build_markerData ts now p f) = now
   \<and> digits_of (int now) \<noteq> []
   \<and> (md_id (build_markerData ts now p f) = md_id (build_markerData ts now' p' f')) = (now = now')
   \<and> (\<bar>fst p\<bar> < 10 ^ 21 \<longrightarrow>
        (\<exists>ip fp. md_lat (build_markerData ts now p f) =
              (if fst p < 0 then ''-'' else []) @ ip @ ''.'' @ fp
          \<and> ip \<noteq> [] \<and> length fp = 6 \<and> (\<forall>c \<in> set (ip @ fp). isDigit c)
          \<and> \<bar>of_int (digitsVal (ip @ fp)) / 10 ^ 6 - \<bar>fst p\<bar>\<bar> \<le> 1 / (2 * 10 ^ 6)))
   \<and> (\<bar>snd p\<bar> < 10 ^ 21 \<longrightarrow>
        (\<exists>ip fp. md_lng (build_markerData ts now p f) =
              (if snd p < 0 then ''-'' else []) @ ip @ ''.'' @ fp
          \<and> ip \<noteq> [] \<and> length fp = 6 \<and> (\<forall>c \<in> set (ip @ fp). isDigit c)
          \<and> \<bar>of_int (digitsVal (ip @ fp)) / 10 ^ 6 - \<bar>snd p\<bar>\<bar> \<le> 1 / (2 * 10 ^ 6)))
   \<and> md_name (build_markerData ts now p f) =
       (if marker_name f = [] then ''New Location'' else marker_name f)
   \<and> md_relatedItems (build_markerData ts now p f) =
       filter (\<lambda>n. n \<noteq> []) (map (\<lambda>r. trim (fst r)) (related_rows f))
   \<and> copy_click True ts now p f st =
       Inr (st\<lparr>pendingWrites := pendingWrites st @ [build_markerData ts now p f],
              copiedShown := True, removals := removals st @ [1500]\<rparr>)"
proof -
  have a: "digits_of (int now) \<noteq> []"
    using digits_of_ok [of "int now"] by simp
  have b: "\<bar>fst p\<bar> < 10 ^ 21 \<longrightarrow>
        (\<exists>ip fp. md_lat (build_markerData ts now p f) =
              (if fst p < 0 then ''-'' else []) @ ip @ ''.'' @ fp
          \<and> ip \<noteq> [] \<and> length fp = 6 \<and> (\<forall>c \<in> set (ip @ fp). isDigit c)
          \<and> \<bar>of_int (digitsVal (ip @ fp)) / 10 ^ 6 - \<bar>fst p\<bar>\<bar> \<le> 1 / (2 * 10 ^ 6))"
    using toFixed6_shape [of "fst p" ts] by (simp add: build_markerData_def)
  have c: "\<bar>snd p\<bar> < 10 ^ 21 \<longrightarrow>
        (\<exists>ip fp. md_lng (build_markerData ts now p f) =
              (if snd p < 0 then ''-'' else []) @ ip @ ''.'' @ fp
          \<and> ip \<noteq> [] \<and> length fp = 6 \<and> (\<forall>c \<in> set (ip @ fp). isDigit c)
          \<and> \<bar>of_int (digitsVal (ip @ fp)) / 10 ^ 6 - \<bar>snd p\<bar>\<bar> \<le> 1 / (2 * 10 ^ 6))"
    using toFixed6_shape [of "snd p" ts] by (simp add: build_markerData_def)
  have d: "md_relatedItems (build_markerData ts now p f) =
       filter (\<lambda>n. n \<noteq> []) (map (\<lambda>r. trim (fst r)) (related_rows f))"
    by (simp add: build_markerData_def collect_items_eq)
  have e: "md_id (build_markerData ts now p f) = now
      \<and> (md_id (build_markerData ts now p f) = md_id (build_markerData ts now' p' f')) = (now = now')
      \<and> md_name (build_markerData ts now p f) =
          (if marker_name f = [] then ''New Location'' else marker_name f)
      \<and> copy_click True ts now p f st =
          Inr (st\<lparr>pendingWrites := pendingWrites st @ [build_markerData ts now p f],
                 copiedShown := True, removals := removals st @ [1500]\<rparr>)"
    by (simp add: build_markerData_def copy_click_def copyToClipboard_def)
  from a b c d e show ?thesis by blast
qed

lemma toFixed6_examples:
  "toFixed6 ts (12345678 / 1000000) = ''12.345678''"
  "toFixed6 ts (- 9876543 / 1000000) = ''-9.876543''"
  "toFixed6 ts (1 / 2) = ''0.500000''"
  "toFixed6 ts (- 1 / 10000000) = ''-0.000000''"
  "toFixed6 ts (25 / 10000000) = ''0.000003''"
  by code_simp+

lemma trim_items: "trim ''Thermite'' = ''Thermite''" "trim ''   '' = []"
  "trim '' Keycard '' = ''Keycard''"
  by code_simp+

lemma point_ex_fixed:
  "toFixed6 ts (fst point_ex) = ''12.345678''" "toFixed6 ts (snd point_ex) = ''-9.876543''"
  by code_simp+

lemma point_ex_range: "\<bar>fst point_ex\<bar> < 10 ^ 21" "\<bar>snd point_ex\<bar> < 10 ^ 21"
  by (simp_all add: point_ex_def)

theorem export_record_witness:
  "\<bar>fst point_ex\<bar> < 10 ^ 21 \<and> \<bar>snd point_ex\<bar> < 10 ^ 21
   \<and> build_markerData (\<lambda>x. []) 1700000000000 point_ex form_ex =
       \<lparr>md_id = 1700000000000, md_lat = ''12.345678'', md_lng = ''-9.876543'',
        md_name = ''Meth Lab 1'', md_img = [], md_info = [],
        md_relatedItems = [''Thermite'', ''Keycard'']\<rparr>
   \<and> md_name (build_markerData (\<lambda>x. []) 1700000000000 point_ex (form_ex\<lparr>marker_name := []\<rparr>)) =
       ''New Location''
   \<and> (\<exists>ip fp. md_lng (build_markerData (\<lambda>x. []) 1700000000000 point_ex form_ex) =
          (if snd point_ex < 0 then ''-'' else []) @ ip @ ''.'' @ fp \<and> length fp = 6)"
proof -
  from export_record [of "\<lambda>x. []" 1700000000000 point_ex form_ex 1700000000000 point_ex form_ex
      draft_open] point_ex_range(2)
  have sh: "\<exists>ip fp. md_lng (build_markerData (\<lambda>x. []) 1700000000000 point_ex form_ex) =
          (if snd point_ex < 0 then ''-'' else []) @ ip @ ''.'' @ fp \<and> length fp = 6"
    by blast
  from export_record [of "\<lambda>x. []" 1700000000000 point_ex form_ex 1700000000000 point_ex form_ex
      draft_open]
  have i: "md_id (build_markerData (\<lambda>x. []) 1700000000000 point_ex form_ex) = 1700000000000"
    and n: "md_name (build_markerData (\<lambda>x. []) 1700000000000 point_ex form_ex) =
        (if marker_name form_ex = [] then ''New Location'' else marker_name form_ex)"
    and it: "md_relatedItems (build_markerData (\<lambda>x. []) 1700000000000 point_ex form_ex) =
        filter (\<lambda>n. n \<noteq> []) (map (\<lambda>r. trim (fst r)) (related_rows form_ex))"
    by blast+
  have "build_markerData (\<lambda>x. []) 1700000000000 point_ex form_ex =
       \<lparr>md_id = 1700000000000, md_lat = ''12.345678'', md_lng = ''-9.876543'',
        md_name = ''Meth Lab 1'', md_img = [], md_info = [],
        md_relatedItems = [''Thermite'', ''Keycard'']\<rparr>"
    using i n it
    by (simp add: build_markerData_def form_ex_def point_ex_fixed trim_items collect_items_eq)
  moreover
  from export_record [of "\<lambda>x. []" 1700000000000 point_ex "form_ex\<lparr>marker_name := []\<rparr>" 0
      "(0, 0)" form_ex draft_open]
  have "md_name (build_markerData (\<lambda>x. []) 1700000000000 point_ex (form_ex\<lparr>marker_name := []\<rparr>)) =
      ''New Location''"
    by simp
  ultimately show ?thesis using point_ex_range sh by simp
qed

text \<open>Two different drafts committed at the same clock value carry the same id.\<close>

theorem export_id_collision_counterexample:
  "md_id (build_markerData (\<lambda>x. []) 1700000000000 point_ex form_ex) =
     md_id (build_markerData (\<lambda>x. []) 1700000000000 (0, 0) (form_ex\<lparr>marker_name := ''Second''\<rparr>))
   \<and> build_markerData (\<lambda>x. []) 1700000000000 point_ex form_ex \<noteq>
       build_markerData (\<lambda>x. []) 1700000000000 (0, 0) (form_ex\<lparr>marker_name := ''Second''\<rparr>)"
  by (simp add: build_markerData_def form_ex_def)

end
